theory Spec2Isabelle
  imports Complex_Main "HOL-Library.Sublist"
begin

section \<open>commit-buddy: a shallow embedding of \<^verbatim>\<open>server.py\<close>\<close>

text \<open>
  The development follows \<^verbatim>\<open>src/server.py\<close> function by function. A Python \<^verbatim>\<open>str\<close> is a
  \<^typ>\<open>string\<close>; every \<^typ>\<open>char\<close> stands for one code point below 256, so \<^const>\<open>length\<close> is
  Python's \<^verbatim>\<open>len\<close> on such texts. Everything outside the process (the \<^verbatim>\<open>git\<close>
  subprocess, the completion service, the environment, the file system) is a field of the
  record \<open>sys\<close>, a function of an explicit world state; each call is also appended to a
  trace, so that "was this command run" is a statement about a list.
\<close>

subsection \<open>Python string primitives\<close>

text \<open>The code points below 256 for which \<^verbatim>\<open>str.isspace\<close> holds; \<^verbatim>\<open>str.strip()\<close> and the
  regular-expression class \<^verbatim>\<open>\s\<close> both use this set.\<close>

definition py_whitespace :: string where
  "py_whitespace = [CHR 0x09, CHR 0x0A, CHR 0x0B, CHR 0x0C, CHR 0x0D,
                    CHR 0x1C, CHR 0x1D, CHR 0x1E, CHR 0x1F, CHR 0x20, CHR 0x85, CHR 0xA0]"

definition is_space :: "char \<Rightarrow> bool" where
  "is_space c = (c \<in> set py_whitespace)"

definition strip_chars :: "(char \<Rightarrow> bool) \<Rightarrow> string \<Rightarrow> string" where
  "strip_chars P s = rev (dropWhile P (rev (dropWhile P s)))"

definition strip :: "string \<Rightarrow> string" where
  "strip s = strip_chars is_space s"

text \<open>\<^verbatim>\<open>str.splitlines()\<close>: the line boundaries below 256, with \<^verbatim>\<open>\r\n\<close> as a single one.\<close>

definition is_linebreak :: "char \<Rightarrow> bool" where
  "is_linebreak c = (c \<in> set [CHR 0x0A, CHR 0x0D, CHR 0x0B, CHR 0x0C,
                                 CHR 0x1C, CHR 0x1D, CHR 0x1E, CHR 0x85])"

fun split_acc :: "string \<Rightarrow> string \<Rightarrow> string list" where
  "split_acc cur [] = (if cur = [] then [] else [cur])"
| "split_acc cur [c] = (if is_linebreak c then [cur] else [cur @ [c]])"
| "split_acc cur (c # d # cs) =
     (if c = CHR 0x0D \<and> d = CHR 0x0A then cur # split_acc [] cs
      else if is_linebreak c then cur # split_acc [] (d # cs)
      else split_acc (cur @ [c]) (d # cs))"

definition splitlines :: "string \<Rightarrow> string list" where
  "splitlines s = split_acc [] s"

text \<open>\<^verbatim>\<open>' '.join(args)\<close>\<close>

fun join_sp :: "string list \<Rightarrow> string" where
  "join_sp [] = []"
| "join_sp [a] = a"
| "join_sp (a # b # bs) = a @ '' '' @ join_sp (b # bs)"

text \<open>\<^verbatim>\<open>str(n)\<close> for an integer, as the f-string \<^verbatim>\<open>f"-U{context_lines}"\<close> renders it.\<close>

fun str_nat :: "nat \<Rightarrow> string" where
  "str_nat n = (if n < 10 then [''0123456789'' ! n]
                else str_nat (n div 10) @ [''0123456789'' ! (n mod 10)])"

definition str_int :: "int \<Rightarrow> string" where
  "str_int i = (if i < 0 then ''-'' @ str_nat (nat (- i)) else str_nat (nat i))"

text \<open>Truth value of an \<^verbatim>\<open>Optional[str]\<close>: \<^verbatim>\<open>None\<close> and \<^verbatim>\<open>""\<close> are false.\<close>

fun truthy :: "string option \<Rightarrow> bool" where
  "truthy None = False"
| "truthy (Some s) = (s \<noteq> [])"

subsection \<open>Regular expressions of \<^verbatim>\<open>SECRET_PATTERNS\<close>\<close>

text \<open>
  Each of the five patterns is a sequence of single-character classes under a greedy
  counted repetition (\<^verbatim>\<open>x\<close>, \<^verbatim>\<open>x?\<close>, \<^verbatim>\<open>x*\<close>, \<^verbatim>\<open>x+\<close>, \<^verbatim>\<open>x{n,}\<close>); the groups are
  never referred to. \<open>Rep P lo hi\<close> is the class \<open>P\<close> repeated at least \<open>lo\<close> and at most
  \<open>hi\<close> times (\<open>None\<close>: unbounded).

  \<open>ends p s\<close> lists the lengths of all prefixes of \<open>s\<close> that the pattern matches, in the
  order in which a backtracking matcher finds them: a greedy repetition first takes the
  longest run and gives characters back one at a time. \<open>match_here\<close> is the first of them,
  what \<^verbatim>\<open>pattern.match(s)\<close> returns.
\<close>

datatype atom = Rep "char \<Rightarrow> bool" nat "nat option"

definition run :: "(char \<Rightarrow> bool) \<Rightarrow> nat option \<Rightarrow> string \<Rightarrow> nat" where
  "run P hi s = (let k = length (takeWhile P s) in case hi of None \<Rightarrow> k | Some h \<Rightarrow> min h k)"

fun ends :: "atom list \<Rightarrow> string \<Rightarrow> nat list" where
  "ends [] s = [0]"
| "ends (Rep P lo hi # as) s =
     concat (map (\<lambda>k. map (\<lambda>n. k + n) (ends as (drop k s))) (rev [lo ..< Suc (run P hi s)]))"

definition match_here :: "atom list \<Rightarrow> string \<Rightarrow> nat option" where
  "match_here p s = (case ends p s of [] \<Rightarrow> None | n # _ \<Rightarrow> Some n)"

text \<open>
  \<^verbatim>\<open>pattern.sub(repl, s)\<close> for a replacement without group references: scan from the left,
  replace the match found at the first position that has one, continue behind it. An empty
  match is replaced too and the scan then moves one character on.
\<close>

function re_sub :: "atom list \<Rightarrow> string \<Rightarrow> string \<Rightarrow> string" where
  "re_sub p r s =
     (case s of
        [] \<Rightarrow> (case match_here p [] of None \<Rightarrow> [] | Some n \<Rightarrow> r)
      | c # cs \<Rightarrow>
          (case match_here p s of
             None \<Rightarrow> c # re_sub p r cs
           | Some n \<Rightarrow> if n = 0 then r @ c # re_sub p r cs else r @ re_sub p r (drop n s)))"
  by pat_completeness auto
termination
  by (relation "measure (\<lambda>(p, r, s). length s)") auto

text \<open>Whether some substring of \<open>s\<close> matches the pattern.\<close>

definition contains_match :: "atom list \<Rightarrow> string \<Rightarrow> bool" where
  "contains_match p s = list_ex (\<lambda>i. ends p (drop i s) \<noteq> []) [0 ..< Suc (length s)]"

text \<open>Character classes. Under \<^verbatim>\<open>(?i)\<close> a letter of the pattern matches both of its cases.\<close>

definition upper_AZ :: string where
  "upper_AZ = ''ABCDEFGHIJKLMNOPQRSTUVWXYZ''"

definition lower_az :: string where
  "lower_az = ''abcdefghijklmnopqrstuvwxyz''"

definition digit_09 :: string where
  "digit_09 = ''0123456789''"

definition lower_c :: "char \<Rightarrow> char" where
  "lower_c c = (case map_of (zip upper_AZ lower_az) c of Some l \<Rightarrow> l | None \<Rightarrow> c)"

definition ci :: "char \<Rightarrow> char \<Rightarrow> bool" where
  "ci a c = (lower_c c = lower_c a)"

definition lit_ci :: "string \<Rightarrow> atom list" where
  "lit_ci w = map (\<lambda>a. Rep (ci a) 1 (Some 1)) w"

definition one_of :: "string \<Rightarrow> char \<Rightarrow> bool" where
  "one_of cs c = (c \<in> set cs)"

definition alnum :: "char \<Rightarrow> bool" where
  "alnum c = (c \<in> set (upper_AZ @ lower_az @ digit_09))"

definition opt_sep :: atom where
  "opt_sep = Rep (one_of ''_-'') 0 (Some 1)"

definition ws_star :: atom where
  "ws_star = Rep is_space 0 None"

definition ws_plus :: atom where
  "ws_plus = Rep is_space 1 None"

definition not_sp_nl :: "char \<Rightarrow> bool" where
  "not_sp_nl c = (c \<noteq> CHR '' '' \<and> c \<noteq> CHR 0x0A)"

text \<open>\<^verbatim>\<open>(?i)aws[_-]?secret[_-]?access[_-]?key\s*=\s*([A-Za-z0-9/+=]{20,})\<close>\<close>

definition pat_aws :: "atom list" where
  "pat_aws = lit_ci ''aws'' @ [opt_sep] @ lit_ci ''secret'' @ [opt_sep] @ lit_ci ''access''
             @ [opt_sep] @ lit_ci ''key'' @ [ws_star] @ lit_ci ''='' @ [ws_star]
             @ [Rep (\<lambda>c. alnum c \<or> one_of ''/+='' c) 20 None]"

text \<open>\<^verbatim>\<open>(?i)api[_-]?key\s*=\s*([A-Za-z0-9_-]{16,})\<close>\<close>

definition pat_api :: "atom list" where
  "pat_api = lit_ci ''api'' @ [opt_sep] @ lit_ci ''key'' @ [ws_star] @ lit_ci ''='' @ [ws_star]
             @ [Rep (\<lambda>c. alnum c \<or> one_of ''_-'' c) 16 None]"

text \<open>\<^verbatim>\<open>(?i)authorization:\s*Bearer\s+[A-Za-z0-9._-]{16,}\<close>\<close>

definition pat_bearer :: "atom list" where
  "pat_bearer = lit_ci ''authorization:'' @ [ws_star] @ lit_ci ''Bearer'' @ [ws_plus]
                @ [Rep (\<lambda>c. alnum c \<or> one_of ''._-'' c) 16 None]"

text \<open>\<^verbatim>\<open>(?i)password\s*=\s*[^ \n]+\<close> and \<^verbatim>\<open>(?i)secret\s*=\s*[^ \n]+\<close>\<close>

definition pat_assign :: "string \<Rightarrow> atom list" where
  "pat_assign w = lit_ci w @ [ws_star] @ lit_ci ''='' @ [ws_star] @ [Rep not_sp_nl 1 None]"

definition pat_password :: "atom list" where
  "pat_password = pat_assign ''password''"

definition pat_secret :: "atom list" where
  "pat_secret = pat_assign ''secret''"

definition SECRET_PATTERNS :: "(atom list \<times> string) list" where
  "SECRET_PATTERNS =
     [(pat_aws, ''aws_secret_access_key=***''),
      (pat_api, ''api_key=***''),
      (pat_bearer, ''authorization: Bearer ***''),
      (pat_password, ''password=***''),
      (pat_secret, ''secret=***'')]"

text \<open>The loop of \<^verbatim>\<open>redact_secrets\<close>: one substitution per rule, in the order of the list.\<close>

definition redact_secrets :: "string \<Rightarrow> string" where
  "redact_secrets text = fold (\<lambda>(pat, replacement) redacted. re_sub pat replacement redacted)
                              SECRET_PATTERNS text"

subsection \<open>Configuration, errors and the outside world\<close>

text \<open>The module-level constants, read from the environment once at import.\<close>

record config =
  MAX_DIFF_CHARS :: int
  ALLOWED_ROOTS :: "string list"
  DEFAULT_OPENAI_MODEL :: string
  OPENAI_TEMPERATURE :: real

text \<open>
  Exceptions. The code itself only raises \<^verbatim>\<open>RuntimeError(message)\<close>; \<open>OSError\<close> stands for
  what \<^verbatim>\<open>subprocess.run\<close> raises when the process cannot be started, \<open>APIError\<close> for any
  exception out of the completion client (transport, or a response without a text).
  All of them are instances of \<^verbatim>\<open>Exception\<close>.
\<close>

datatype error = RuntimeError string | OSError string | APIError string

record proc =
  returncode :: int
  stdout :: string
  stderr :: string

record chat_request =
  req_model :: string
  req_temperature :: real
  req_messages :: "(string \<times> string) list"
  req_max_tokens :: nat

datatype event =
    Subprocess "string list" string
  | ChatCompletion chat_request
  | Print string

record 'w sys =
  path_resolve :: "'w \<Rightarrow> string \<Rightarrow> string"
  subprocess_run :: "string list \<Rightarrow> string \<Rightarrow> 'w \<Rightarrow> (error + proc) \<times> 'w"
  getenv :: "'w \<Rightarrow> string \<Rightarrow> string option"
  chat_create :: "chat_request \<Rightarrow> 'w \<Rightarrow> (error + string) \<times> 'w"
  dedent :: "string \<Rightarrow> string"
  le_sign :: string

text \<open>
  \<open>path_resolve w p\<close> is \<^verbatim>\<open>str(Path(p).resolve())\<close>; \<open>subprocess_run argv cwd\<close> is
  \<^verbatim>\<open>subprocess.run(argv, cwd=cwd, capture_output=True, text=True)\<close>; \<open>chat_create\<close> is
  \<^verbatim>\<open>client.chat.completions.create(...)\<close> followed by \<^verbatim>\<open>.choices[0].message.content\<close>;
  \<open>dedent\<close> is \<^verbatim>\<open>textwrap.dedent\<close>; \<open>le_sign\<close> is the one character of the prompt (U+2264)
  that lies outside the 8-bit character type.
\<close>

record 'w state =
  world :: 'w
  trace :: "event list"

type_synonym ('w, 'a) action = "'w state \<Rightarrow> (error + 'a) \<times> 'w state"

text \<open>Sequencing: an exception ends the computation, with the state reached so far.\<close>

definition and_then :: "('w, 'a) action \<Rightarrow> ('a \<Rightarrow> ('w, 'b) action) \<Rightarrow> ('w, 'b) action" where
  "and_then m f st = (case m st of (Inl e, st') \<Rightarrow> (Inl e, st') | (Inr x, st') \<Rightarrow> f x st')"

definition return :: "'a \<Rightarrow> ('w, 'a) action" where
  "return x st = (Inr x, st)"

definition raise :: "error \<Rightarrow> ('w, 'a) action" where
  "raise e st = (Inl e, st)"

text \<open>\<^verbatim>\<open>try: body  except Exception: handler\<close>\<close>

definition try_except :: "('w, 'a) action \<Rightarrow> ('w, 'a) action \<Rightarrow> ('w, 'a) action" where
  "try_except body handler st =
     (case body st of (Inl e, st') \<Rightarrow> handler st' | (Inr x, st') \<Rightarrow> (Inr x, st'))"

definition log :: "event \<Rightarrow> 'w state \<Rightarrow> 'w state" where
  "log ev st = st\<lparr>trace := trace st @ [ev]\<rparr>"

subsection \<open>Helpers\<close>

definition check_allowed :: "config \<Rightarrow> string \<Rightarrow> error + unit" where
  "check_allowed cfg path =
     (if ALLOWED_ROOTS cfg = [] then Inr ()
      else if \<not> list_ex (\<lambda>root. prefix root path) (ALLOWED_ROOTS cfg)
      then Inl (RuntimeError (''Path '' @ path @ '' is not in COMMIT_BUDDY_ALLOWED_ROOTS. ''
                              @ ''Set COMMIT_BUDDY_ALLOWED_ROOTS to allow this repo.''))
      else Inr ())"

definition run_git :: "'w sys \<Rightarrow> string list \<Rightarrow> string \<Rightarrow> ('w, string) action" where
  "run_git sys args cwd st =
     (case subprocess_run sys (''git'' # args) cwd (world st) of
        (Inl e, w') \<Rightarrow> (Inl e, log (Subprocess (''git'' # args) cwd) (st\<lparr>world := w'\<rparr>))
      | (Inr result, w') \<Rightarrow>
          (let st' = log (Subprocess (''git'' # args) cwd) (st\<lparr>world := w'\<rparr>) in
           if returncode result \<noteq> 0
           then (Inl (RuntimeError (''git '' @ join_sp args @ '' failed: '' @ strip (stderr result))), st')
           else (Inr (strip (stdout result)), st')))"

definition ensure_repo :: "'w sys \<Rightarrow> config \<Rightarrow> string \<Rightarrow> ('w, string) action" where
  "ensure_repo sys cfg path st =
     (let p = path_resolve sys (world st) path in
      case check_allowed cfg p of
        Inl e \<Rightarrow> (Inl e, st)
      | Inr _ \<Rightarrow> and_then (run_git sys [''rev-parse'', ''--show-toplevel''] p) (\<lambda>_. return p) st)"

definition get_current_branch :: "'w sys \<Rightarrow> string \<Rightarrow> ('w, string) action" where
  "get_current_branch sys cwd = run_git sys [''rev-parse'', ''--abbrev-ref'', ''HEAD''] cwd"

definition has_remote :: "'w sys \<Rightarrow> string \<Rightarrow> string \<Rightarrow> ('w, bool) action" where
  "has_remote sys cwd remote =
     and_then (run_git sys [''remote''] cwd) (\<lambda>out. return (remote \<in> set (splitlines out)))"

text \<open>The f-string of the user prompt, before \<^verbatim>\<open>textwrap.dedent\<close>.\<close>

definition user_prompt_text :: "'w sys \<Rightarrow> string \<Rightarrow> string option \<Rightarrow> string" where
  "user_prompt_text sys diff language =
     [CHR 0x0A]
     @ ''    Generate a clear, **Conventional Commits** style commit message based on the unified git diff below.'' @ [CHR 0x0A]
     @ [CHR 0x0A]
     @ ''    Requirements:'' @ [CHR 0x0A]
     @ ''    - Start with a conventional type (feat, fix, docs, style, refactor, test, chore, perf, build, ci).'' @ [CHR 0x0A]
     @ ''    - A concise subject line ('' @ le_sign sys @ '' 72 chars).'' @ [CHR 0x0A]
     @ ''    - Optional body lines with bullet points summarizing key changes.'' @ [CHR 0x0A]
     @ ''    - No code fences in the output. Plain text only.'' @ [CHR 0x0A]
     @ ''    - If the changes are trivial (whitespace, typos), use '' @ [CHR 0x22] @ ''chore:'' @ [CHR 0x22] @ '' or '' @ [CHR 0x22] @ ''style:'' @ [CHR 0x22] @ '' accordingly.'' @ [CHR 0x0A]
     @ ''    - '' @ (if truthy language then ''Write it in '' @ the language @ ''.'' else ''Write in English.'') @ [CHR 0x0A]
     @ [CHR 0x0A]
     @ ''    Git diff:'' @ [CHR 0x0A]
     @ ''    '' @ diff @ [CHR 0x0A]
     @ ''    ''"

definition system_prompt :: string where
  "system_prompt = ''You are a senior engineer who writes excellent Conventional Commits.''"

text \<open>The request of lines 88 to 96, and the clean-up of the reply in lines 97 to 99.\<close>

definition completion_request ::
  "'w sys \<Rightarrow> string \<Rightarrow> string option \<Rightarrow> string \<Rightarrow> real \<Rightarrow> chat_request" where
  "completion_request sys diff language model temperature =
     \<lparr>req_model = model, req_temperature = temperature,
      req_messages = [(''system'', system_prompt),
                      (''user'', dedent sys (user_prompt_text sys diff language))],
      req_max_tokens = 220\<rparr>"

definition clean_reply :: "string \<Rightarrow> string" where
  "clean_reply content = strip (strip_chars (\<lambda>c. c = CHR 0x60) (strip (strip content)))"

definition openai_generate_commit_message ::
  "'w sys \<Rightarrow> string \<Rightarrow> string option \<Rightarrow> string \<Rightarrow> real \<Rightarrow> ('w, string) action" where
  "openai_generate_commit_message sys diff language model temperature st =
     (if \<not> truthy (getenv sys (world st) ''OPENAI_API_KEY'')
      then (Inl (RuntimeError ''OPENAI_API_KEY is not set. Cannot generate commit message.''), st)
      else
        let request = completion_request sys diff language model temperature
        in case chat_create sys request (world st) of
             (Inl e, w') \<Rightarrow> (Inl e, log (ChatCompletion request) (st\<lparr>world := w'\<rparr>))
           | (Inr content, w') \<Rightarrow>
               (Inr (clean_reply content), log (ChatCompletion request) (st\<lparr>world := w'\<rparr>)))"

subsection \<open>Tools\<close>

definition truncation_marker :: string where
  "truncation_marker = [CHR 0x0A] @ ''[commit-buddy] Diff truncated for size.'' @ [CHR 0x0A]"

text \<open>\<^verbatim>\<open>diff[:limit]\<close>: a negative bound counts from the end of the text.\<close>

definition slice_to :: "int \<Rightarrow> string \<Rightarrow> string" where
  "slice_to limit s = (if limit < 0 then take (length s - nat (- limit)) s else take (nat limit) s)"

text \<open>Lines 113 to 117 and line 124 of \<^verbatim>\<open>get_git_diff\<close>: the arguments of the diff command
  and the cap in force.\<close>

definition diff_args :: "bool \<Rightarrow> int \<Rightarrow> string option \<Rightarrow> string list" where
  "diff_args staged_only context_lines filter_path =
     (let args = (if staged_only then [''diff'', ''--staged'', ''-U'' @ str_int context_lines]
                  else [''diff'', ''-U'' @ str_int context_lines])
      in if truthy filter_path then args @ [the filter_path] else args)"

definition effective_limit :: "config \<Rightarrow> int option \<Rightarrow> int" where
  "effective_limit cfg max_chars =
     (case max_chars of
        Some m \<Rightarrow> if m > 0 then m else MAX_DIFF_CHARS cfg
      | None \<Rightarrow> MAX_DIFF_CHARS cfg)"

text \<open>\<^verbatim>\<open>if len(diff) > limit: diff = diff[:limit] + marker\<close>, as in lines 125 to 126 and
  212 to 213.\<close>

definition capped :: "int \<Rightarrow> string \<Rightarrow> string" where
  "capped limit diff =
     (if int (length diff) > limit then slice_to limit diff @ truncation_marker else diff)"

definition get_git_diff ::
  "'w sys \<Rightarrow> config \<Rightarrow> string \<Rightarrow> bool \<Rightarrow> int \<Rightarrow> string option \<Rightarrow> int option \<Rightarrow> ('w, string) action" where
  "get_git_diff sys cfg path staged_only context_lines filter_path max_chars =
     and_then (ensure_repo sys cfg path) (\<lambda>repo.
       and_then (run_git sys (diff_args staged_only context_lines filter_path) repo) (\<lambda>diff.
         if diff = [] then return ''[commit-buddy] No changes detected (diff is empty).''
         else
           let diff = redact_secrets diff;
               limit = effective_limit cfg max_chars
           in return (capped limit diff)))"

definition stage_all :: "'w sys \<Rightarrow> config \<Rightarrow> string \<Rightarrow> string option \<Rightarrow> ('w, string) action" where
  "stage_all sys cfg path pattern =
     and_then (ensure_repo sys cfg path) (\<lambda>repo.
       if truthy pattern
       then and_then (run_git sys [''add'', the pattern] repo)
              (\<lambda>_. return (''[commit-buddy] Staged changes matching: '' @ the pattern))
       else and_then (run_git sys [''add'', ''-A''] repo)
              (\<lambda>_. return ''[commit-buddy] Staged all changes.''))"

text \<open>\<^verbatim>\<open>print(diff)\<close> writes the text to the standard output of the process.\<close>

definition print :: "string \<Rightarrow> ('w, unit) action" where
  "print s st = (Inr (), log (Print s) st)"

text \<open>
  The body of \<^verbatim>\<open>generate_commit_message\<close> ends at the first \<^verbatim>\<open>return\<close> behind the
  \<^verbatim>\<open>print\<close>; the lines after it (commented out, and a last \<^verbatim>\<open>return message\<close>) are never
  reached. The arguments \<open>language\<close>, \<open>model\<close> and \<open>temperature\<close> are not read.
\<close>

definition generate_commit_message ::
  "'w sys \<Rightarrow> config \<Rightarrow> string \<Rightarrow> bool \<Rightarrow> string option \<Rightarrow> string option \<Rightarrow> real option
     \<Rightarrow> ('w, string) action" where
  "generate_commit_message sys cfg path staged_only language model temperature =
     and_then (ensure_repo sys cfg path) (\<lambda>repo.
       let args = (if staged_only then [''diff'', ''--staged''] else [''diff'']) in
       and_then (run_git sys args repo) (\<lambda>diff.
         if diff = [] then return ''[commit-buddy] No changes detected; nothing to describe.''
         else and_then (print diff) (\<lambda>_. return ''testing commit message'')))"

text \<open>The arguments of \<^verbatim>\<open>commit_and_push\<close>; \<open>default_request\<close> holds the defaults of the
  signature.\<close>

record commit_request =
  path :: string
  message :: string
  signoff :: bool
  branch :: "string option"
  remote :: string
  push :: bool
  allow_main_push :: bool
  generate_if_empty :: bool
  staged_only_for_gen :: bool
  dry_run :: bool
  language :: "string option"
  model :: "string option"
  temperature :: "real option"

definition default_request :: commit_request where
  "default_request =
     \<lparr>path = ''.'', message = [], signoff = False, branch = None, remote = ''origin'',
      push = True, allow_main_push = False, generate_if_empty = True,
      staged_only_for_gen = True, dry_run = False, language = None, model = None,
      temperature = None\<rparr>"

text \<open>Lines 203 to 219: the message given, or one generated from the redacted diff.
  \<open>Inl text\<close> is the early \<^verbatim>\<open>return\<close> of line 210, \<open>Inr m\<close> the message.\<close>

definition resolve_message ::
  "'w sys \<Rightarrow> config \<Rightarrow> commit_request \<Rightarrow> string \<Rightarrow> ('w, string + string) action" where
  "resolve_message sys cfg rq repo =
     (let final_message = strip (message rq) in
      and_then
        (if final_message = [] \<and> generate_if_empty rq then
           let args = (if staged_only_for_gen rq then [''diff'', ''--staged''] else [''diff'']) in
           and_then (run_git sys args repo) (\<lambda>diff.
             if diff = [] then return (Inl ''[commit-buddy] No changes detected for message generation.'')
             else
               let diff = capped (MAX_DIFF_CHARS cfg) (redact_secrets diff);
                   mdl = (if truthy (model rq) then the (model rq) else DEFAULT_OPENAI_MODEL cfg);
                   temp = (case temperature rq of None \<Rightarrow> OPENAI_TEMPERATURE cfg | Some t \<Rightarrow> t)
               in and_then (openai_generate_commit_message sys diff (language rq) mdl temp)
                    (\<lambda>m. return (Inr m)))
         else return (Inr final_message))
        (\<lambda>r. case r of
           Inl early \<Rightarrow> return (Inl early)
         | Inr final_message \<Rightarrow>
             if final_message = []
             then raise (RuntimeError ''Commit message is required (generation disabled or failed).'')
             else return (Inr final_message)))"

text \<open>The texts of lines 201 and 240, and the arguments of the commit in lines 232 to 234.\<close>

definition remote_not_found_text :: "string \<Rightarrow> string" where
  "remote_not_found_text remote_name =
     ''Remote '' @ [CHR 0x27] @ remote_name @ [CHR 0x27] @ '' not found. Add it with ''
     @ [CHR 0x27] @ ''git remote add '' @ remote_name @ '' <url>'' @ [CHR 0x27] @ ''.''"

definition blocked_text :: "string \<Rightarrow> string" where
  "blocked_text current_branch =
     ''[commit-buddy] Push blocked: refusing to push directly to '' @ current_branch
     @ ''. Set allow_main_push=true to override.''"

definition commit_args :: "commit_request \<Rightarrow> string \<Rightarrow> string list" where
  "commit_args rq final_message =
     (if signoff rq then [''commit'', ''-m'', final_message, ''--signoff'']
      else [''commit'', ''-m'', final_message])"

text \<open>The f-string of the dry-run preview, before \<^verbatim>\<open>textwrap.dedent\<close>.\<close>

definition dry_run_text :: "string \<Rightarrow> string \<Rightarrow> string \<Rightarrow> string" where
  "dry_run_text current_branch remote_name final_message =
     ''        [commit-buddy] DRY RUN'' @ [CHR 0x0A]
     @ ''        Branch: '' @ current_branch @ [CHR 0x0A]
     @ ''        Remote: '' @ remote_name @ [CHR 0x0A]
     @ ''        Message:'' @ [CHR 0x0A]
     @ ''        '' @ final_message @ [CHR 0x0A]
     @ ''        (No commit/push executed.)'' @ [CHR 0x0A]
     @ ''        ''"

text \<open>Lines 238 to 249: the push, with the upstream check and the plain push under one
  \<^verbatim>\<open>try\<close>.\<close>

definition push_phase :: "'w sys \<Rightarrow> commit_request \<Rightarrow> string \<Rightarrow> string \<Rightarrow> ('w, string) action" where
  "push_phase sys rq repo current_branch =
     (if push rq then
        and_then (has_remote sys repo (remote rq)) (\<lambda>found.
          if \<not> found
          then raise (RuntimeError (remote_not_found_text (remote rq)))
          else
            and_then
              (try_except
                 (and_then (run_git sys [''rev-parse'', ''--abbrev-ref'', ''--symbolic-full-name'', ''@'' @ ''{u}''] repo)
                    (\<lambda>_. run_git sys [''push'', remote rq, current_branch] repo))
                 (run_git sys [''push'', ''--set-upstream'', remote rq, current_branch] repo))
              (\<lambda>_. return (''[commit-buddy] Committed and pushed to '' @ remote rq @ ''/''
                            @ current_branch @ ''.'')))
      else return (''[commit-buddy] Committed locally on '' @ current_branch @ ''. Push skipped.''))"

definition commit_and_push :: "'w sys \<Rightarrow> config \<Rightarrow> commit_request \<Rightarrow> ('w, string) action" where
  "commit_and_push sys cfg rq =
     and_then (ensure_repo sys cfg (path rq)) (\<lambda>repo.
     and_then (run_git sys [''status'', ''--porcelain''] repo) (\<lambda>status.
       if status = [] then return ''[commit-buddy] Nothing to commit.''
       else
         and_then (if truthy (branch rq) then return (the (branch rq))
                   else get_current_branch sys repo) (\<lambda>current_branch.
           if push rq \<and> \<not> allow_main_push rq \<and> current_branch \<in> set [''main'', ''master'']
           then return (blocked_text current_branch)
           else
             and_then (resolve_message sys cfg rq repo) (\<lambda>r.
               case r of
                 Inl early \<Rightarrow> return early
               | Inr final_message \<Rightarrow>
                   if dry_run rq
                   then return (dedent sys (dry_run_text current_branch (remote rq) final_message))
                   else
                     and_then (run_git sys (commit_args rq final_message) repo)
                       (\<lambda>_. push_phase sys rq repo current_branch)))))"

subsection \<open>A simulated repository\<close>

text \<open>
  A small concrete instance of \<open>sys\<close>, on which the tools can be evaluated. Its world is the
  list of the state-changing \<^verbatim>\<open>git\<close> commands run so far (\<^verbatim>\<open>add\<close>, \<^verbatim>\<open>commit\<close>, \<^verbatim>\<open>push\<close>).
\<close>

record sim =
  sim_branch :: string
  sim_diff :: string
  sim_remotes :: string
  sim_upstream :: bool
  sim_push_ok :: bool
  sim_api_key :: "string option"
  sim_reply :: string

definition proc_ok :: "string \<Rightarrow> proc" where
  "proc_ok out = \<lparr>returncode = 0, stdout = out @ [CHR 0x0A], stderr = []\<rparr>"

definition proc_fail :: "string \<Rightarrow> proc" where
  "proc_fail err = \<lparr>returncode = 128, stdout = [], stderr = err @ [CHR 0x0A]\<rparr>"

definition sim_git ::
  "sim \<Rightarrow> string list \<Rightarrow> string \<Rightarrow> string list list \<Rightarrow> (error + proc) \<times> string list list" where
  "sim_git c argv cwd w =
     (case argv of
        g # sub # rest \<Rightarrow>
          if sub = ''rev-parse'' then
            (if rest = [''--show-toplevel''] then (Inr (proc_ok cwd), w)
             else if rest = [''--abbrev-ref'', ''HEAD''] then (Inr (proc_ok (sim_branch c)), w)
             else if sim_upstream c then (Inr (proc_ok (''origin/'' @ sim_branch c)), w)
             else (Inr (proc_fail ''fatal: no upstream configured''), w))
          else if sub = ''status'' then (Inr (proc_ok '' M a.txt''), w)
          else if sub = ''diff'' then (Inr (proc_ok (sim_diff c)), w)
          else if sub = ''remote'' then (Inr (proc_ok (sim_remotes c)), w)
          else if sub = ''push'' then
            (if take 1 rest = [''--set-upstream''] \<or> sim_push_ok c then (Inr (proc_ok []), w @ [argv])
             else (Inr (proc_fail ''error: failed to push some refs''), w))
          else (Inr (proc_ok []), w @ [argv])
      | _ \<Rightarrow> (Inl (OSError ''no command''), w))"

definition sim_sys :: "sim \<Rightarrow> (string list list) sys" where
  "sim_sys c =
     \<lparr>path_resolve = (\<lambda>w p. if p = ''.'' then ''/srv/repo'' else p),
      subprocess_run = sim_git c,
      getenv = (\<lambda>w name. if name = ''OPENAI_API_KEY'' then sim_api_key c else None),
      chat_create = (\<lambda>request w. (Inr (sim_reply c), w)),
      dedent = (\<lambda>s. s),
      le_sign = ''<=''\<rparr>"

definition sim0 :: sim where
  "sim0 = \<lparr>sim_branch = ''main'', sim_diff = ''+password=hunter2'', sim_remotes = ''origin'',
           sim_upstream = True, sim_push_ok = True, sim_api_key = Some ''sk-test'',
           sim_reply = ''feat: add login''\<rparr>"

definition cfg0 :: config where
  "cfg0 = \<lparr>MAX_DIFF_CHARS = 200000, ALLOWED_ROOTS = [], DEFAULT_OPENAI_MODEL = ''gpt-4o-mini'',
           OPENAI_TEMPERATURE = 0.2\<rparr>"

definition st0 :: "(string list list) state" where
  "st0 = \<lparr>world = [], trace = []\<rparr>"

text \<open>Events of the trace that the claims speak about.\<close>

fun is_git :: "string \<Rightarrow> event \<Rightarrow> bool" where
  "is_git sub (Subprocess argv cwd) = (take 2 argv = [''git'', sub])"
| "is_git sub _ = False"

fun is_chat :: "event \<Rightarrow> bool" where
  "is_chat (ChatCompletion request) = True"
| "is_chat _ = False"

definition mutating :: "event \<Rightarrow> bool" where
  "mutating ev = (is_git ''commit'' ev \<or> is_git ''push'' ev \<or> is_chat ev)"

subsection \<open>Acceptors for the two assignment patterns\<close>

text \<open>
  For the analysis of the password and the secret rule, the question "does
  \<open>pat_assign w\<close> match a prefix of \<open>s\<close>" is also written as a recursion over the text, one
  function for each phase of the pattern: the letters of the key, the blanks and the equals
  sign, the blanks and the first character of the value. The lemma \<open>ends_pat_assign\<close>
  below shows that \<open>acc_lit w\<close> says the same as \<open>ends (pat_assign w)\<close>.
\<close>

fun ci_prefix :: "string \<Rightarrow> string \<Rightarrow> bool" where
  "ci_prefix [] s = True"
| "ci_prefix (a # w) [] = False"
| "ci_prefix (a # w) (c # cs) = (ci a c \<and> ci_prefix w cs)"

fun acc_val :: "string \<Rightarrow> bool" where
  "acc_val [] = False"
| "acc_val (c # cs) = (not_sp_nl c \<or> (is_space c \<and> acc_val cs))"

fun acc_eq :: "string \<Rightarrow> bool" where
  "acc_eq [] = False"
| "acc_eq (c # cs) = ((ci CHR ''='' c \<and> acc_val cs) \<or> (is_space c \<and> acc_eq cs))"

fun acc_lit :: "string \<Rightarrow> string \<Rightarrow> bool" where
  "acc_lit [] s = acc_eq s"
| "acc_lit (a # w) [] = False"
| "acc_lit (a # w) (c # cs) = (ci a c \<and> acc_lit w cs)"

text \<open>A text that is empty or begins with a space or a newline: what can follow a match of
  \<^verbatim>\<open>[^ \n]+\<close>.\<close>

definition boundary :: "string \<Rightarrow> bool" where
  "boundary s = (case s of [] \<Rightarrow> True | c # cs \<Rightarrow> \<not> not_sp_nl c)"

text \<open>\<open>masked w u\<close>: wherever \<open>pat_assign w\<close> matches in \<open>u\<close>, the text there is the placeholder
  \<open>w=***\<close>, followed by the end of the text, a space or a newline.\<close>

definition masked :: "string \<Rightarrow> string \<Rightarrow> bool" where
  "masked w u = (\<forall>i. acc_lit w (drop i u) \<longrightarrow> (\<exists>rest. drop i u = w @ ''=***'' @ rest \<and> boundary rest))"

subsection \<open>Acceptors for the bearer pattern\<close>

text \<open>
  The same for \<open>pat_bearer\<close>: \<open>acc_tok k\<close> reads \<open>k\<close> token characters, \<open>acc_wt\<close> blanks and
  then sixteen token characters, \<open>acc_b2 v\<close> the letters \<open>v\<close> of the word Bearer, at least one
  blank and the token, \<open>acc_wb\<close> blanks and then the word Bearer with what follows it, and
  \<open>acc_b1 v\<close> the letters \<open>v\<close> of the header name with what follows it. The lemma
  \<open>ends_pat_bearer\<close> below shows that \<open>acc_b1 ''authorization:''\<close> says the same as
  \<open>ends pat_bearer\<close>.
\<close>

definition bearer_tok :: "char \<Rightarrow> bool" where
  "bearer_tok c = (alnum c \<or> one_of ''._-'' c)"

fun acc_tok :: "nat \<Rightarrow> string \<Rightarrow> bool" where
  "acc_tok 0 s = True"
| "acc_tok (Suc k) [] = False"
| "acc_tok (Suc k) (c # cs) = (bearer_tok c \<and> acc_tok k cs)"

fun acc_wt :: "string \<Rightarrow> bool" where
  "acc_wt [] = False"
| "acc_wt (c # cs) = (acc_tok 16 (c # cs) \<or> (is_space c \<and> acc_wt cs))"

fun acc_b2 :: "string \<Rightarrow> string \<Rightarrow> bool" where
  "acc_b2 [] [] = False"
| "acc_b2 [] (c # cs) = (is_space c \<and> acc_wt cs)"
| "acc_b2 (a # v) [] = False"
| "acc_b2 (a # v) (c # cs) = (ci a c \<and> acc_b2 v cs)"

fun acc_wb :: "string \<Rightarrow> bool" where
  "acc_wb [] = False"
| "acc_wb (c # cs) = (acc_b2 ''Bearer'' (c # cs) \<or> (is_space c \<and> acc_wb cs))"

fun acc_b1 :: "string \<Rightarrow> string \<Rightarrow> bool" where
  "acc_b1 [] s = acc_wb s"
| "acc_b1 (a # v) [] = False"
| "acc_b1 (a # v) (c # cs) = (ci a c \<and> acc_b1 v cs)"

text \<open>\<open>clean_bearer u\<close>: the bearer pattern matches nowhere in \<open>u\<close>.\<close>

definition clean_bearer :: "string \<Rightarrow> bool" where
  "clean_bearer u = (\<forall>i. \<not> acc_b1 ''authorization:'' (drop i u))"

section \<open>Properties of the tools\<close>

subsection \<open>The trace of a call\<close>

lemma run_git_trace:
  "run_git sys args cwd st = (r, st') \<Longrightarrow> trace st' = trace st @ [Subprocess (''git'' # args) cwd]"
  by (auto simp: run_git_def log_def Let_def split: prod.splits sum.splits if_splits)

lemma run_git_world:
  "run_git sys args cwd st = (r, st') \<Longrightarrow>
     world st' = snd (subprocess_run sys (''git'' # args) cwd (world st))"
  by (auto simp: run_git_def log_def Let_def split: prod.splits sum.splits if_splits)

lemma ensure_repo_Inr:
  "ensure_repo sys cfg p st = (Inr repo, st1) \<Longrightarrow>
     trace st1 = trace st @ [Subprocess [''git'', ''rev-parse'', ''--show-toplevel''] repo]"
  by (auto simp: ensure_repo_def and_then_def return_def Let_def dest: run_git_trace
           split: sum.splits prod.splits)

lemma resolve_branch_trace:
  assumes "(if truthy br then return (the br) else get_current_branch sys repo) st2 = (r, st3)"
  shows "trace st3 = trace st2 @ (if truthy br then []
           else [Subprocess [''git'', ''rev-parse'', ''--abbrev-ref'', ''HEAD''] repo])"
  using assms by (auto simp: return_def get_current_branch_def dest: run_git_trace split: if_splits)

lemmas sim_defs = sim_sys_def sim0_def cfg0_def st0_def sim_git_def proc_ok_def proc_fail_def
  default_request_def

lemmas act_defs = and_then_def return_def raise_def try_except_def log_def run_git_def
  ensure_repo_def check_allowed_def get_current_branch_def has_remote_def strip_def
  strip_chars_def is_space_def py_whitespace_def Let_def

subsection \<open>The allow-list\<close>

text \<open>
  Claim C9. \<open>check_allowed\<close> accepts every path whose string form has the string form of
  some allowed root as a prefix; the test is \<^verbatim>\<open>str.startswith\<close>, so a sibling directory
  whose name merely begins with the name of the root is accepted as well.
\<close>

theorem check_allowed_string_prefix:
  assumes "r \<in> set (ALLOWED_ROOTS cfg)" and "prefix r p"
  shows "check_allowed cfg p = Inr ()"
  using assms by (auto simp: check_allowed_def list_ex_iff)

theorem check_allowed_string_prefix_witness:
  "''/srv/repo'' \<in> set (ALLOWED_ROOTS (cfg0\<lparr>ALLOWED_ROOTS := [''/srv/repo'']\<rparr>))
   \<and> prefix ''/srv/repo'' ''/srv/repoevil''
   \<and> check_allowed (cfg0\<lparr>ALLOWED_ROOTS := [''/srv/repo'']\<rparr>) ''/srv/repoevil'' = Inr ()"
proof -
  have h1: "''/srv/repo'' \<in> set (ALLOWED_ROOTS (cfg0\<lparr>ALLOWED_ROOTS := [''/srv/repo'']\<rparr>))"
    by simp
  have h2: "prefix ''/srv/repo'' ''/srv/repoevil''"
    by simp
  from check_allowed_string_prefix [OF h1 h2] h1 h2 show ?thesis by simp
qed

subsection \<open>The branch guard\<close>

text \<open>
  Claim C1. With \<open>push\<close> set, \<open>allow_main_push\<close> unset, a non-empty status and a resolved
  branch \<^verbatim>\<open>main\<close> or \<^verbatim>\<open>master\<close>, \<open>commit_and_push\<close> returns the text of the blocked push in
  the state reached by the branch resolution: the only commands run are the repository
  check, the status query and (when no branch was given) the query of the current branch;
  no commit, no push and no call of the completion service is among the new events.
\<close>

theorem push_blocked_before_any_effect:
  assumes "push rq" and "\<not> allow_main_push rq"
    and "ensure_repo sys cfg (path rq) st = (Inr repo, st1)"
    and "run_git sys [''status'', ''--porcelain''] repo st1 = (Inr status, st2)"
    and "status \<noteq> []"
    and "(if truthy (branch rq) then return (the (branch rq)) else get_current_branch sys repo) st2
           = (Inr b, st3)"
    and "b = ''main'' \<or> b = ''master''"
  shows "commit_and_push sys cfg rq st = (Inr (blocked_text b), st3)
         \<and> trace st3 = trace st
              @ [Subprocess [''git'', ''rev-parse'', ''--show-toplevel''] repo,
                 Subprocess [''git'', ''status'', ''--porcelain''] repo]
              @ (if truthy (branch rq) then []
                 else [Subprocess [''git'', ''rev-parse'', ''--abbrev-ref'', ''HEAD''] repo])
         \<and> list_all (\<lambda>ev. \<not> mutating ev) (drop (length (trace st)) (trace st3))"
proof -
  have res: "commit_and_push sys cfg rq st = (Inr (blocked_text b), st3)"
    using assms by (auto simp: commit_and_push_def and_then_def return_def)
  have t1: "trace st1 = trace st @ [Subprocess [''git'', ''rev-parse'', ''--show-toplevel''] repo]"
    using assms(3) by (rule ensure_repo_Inr)
  have t2: "trace st2 = trace st1 @ [Subprocess [''git'', ''status'', ''--porcelain''] repo]"
    using assms(4) by (rule run_git_trace)
  have t3: "trace st3 = trace st2 @ (if truthy (branch rq) then []
              else [Subprocess [''git'', ''rev-parse'', ''--abbrev-ref'', ''HEAD''] repo])"
    using assms(6) by (rule resolve_branch_trace)
  have tr: "trace st3 = trace st
              @ [Subprocess [''git'', ''rev-parse'', ''--show-toplevel''] repo,
                 Subprocess [''git'', ''status'', ''--porcelain''] repo]
              @ (if truthy (branch rq) then []
                 else [Subprocess [''git'', ''rev-parse'', ''--abbrev-ref'', ''HEAD''] repo])"
    using t1 t2 t3 by simp
  have "list_all (\<lambda>ev. \<not> mutating ev) (drop (length (trace st)) (trace st3))"
    unfolding tr by (simp add: mutating_def)
  with res tr show ?thesis by blast
qed

theorem push_blocked_before_any_effect_witness:
  "commit_and_push (sim_sys sim0) cfg0 default_request st0
     = (Inr (blocked_text ''main''),
        \<lparr>world = [],
         trace = [Subprocess [''git'', ''rev-parse'', ''--show-toplevel''] ''/srv/repo'',
                  Subprocess [''git'', ''status'', ''--porcelain''] ''/srv/repo'',
                  Subprocess [''git'', ''rev-parse'', ''--abbrev-ref'', ''HEAD''] ''/srv/repo'']\<rparr>)"
proof -
  let ?e1 = "Subprocess [''git'', ''rev-parse'', ''--show-toplevel''] ''/srv/repo''"
  let ?e2 = "Subprocess [''git'', ''status'', ''--porcelain''] ''/srv/repo''"
  let ?e3 = "Subprocess [''git'', ''rev-parse'', ''--abbrev-ref'', ''HEAD''] ''/srv/repo''"
  let ?st1 = "\<lparr>world = [], trace = [?e1]\<rparr> :: (string list list) state"
  let ?st2 = "\<lparr>world = [], trace = [?e1, ?e2]\<rparr> :: (string list list) state"
  let ?st3 = "\<lparr>world = [], trace = [?e1, ?e2, ?e3]\<rparr> :: (string list list) state"
  have h1: "push default_request" and h2: "\<not> allow_main_push default_request"
    by (simp_all add: default_request_def)
  have h3: "ensure_repo (sim_sys sim0) cfg0 (path default_request) st0 = (Inr ''/srv/repo'', ?st1)"
    by (simp add: sim_defs act_defs)
  have h4: "run_git (sim_sys sim0) [''status'', ''--porcelain''] ''/srv/repo'' ?st1
              = (Inr ''M a.txt'', ?st2)"
    by (simp add: sim_defs act_defs)
  have h5: "''M a.txt'' \<noteq> []"
    by simp
  have h6: "(if truthy (branch default_request) then return (the (branch default_request))
             else get_current_branch (sim_sys sim0) ''/srv/repo'') ?st2 = (Inr ''main'', ?st3)"
    by (simp add: sim_defs act_defs)
  have h7: "''main'' = ''main'' \<or> ''main'' = ''master''"
    by simp
  from push_blocked_before_any_effect [OF h1 h2 h3 h4 h5 h6 h7] show ?thesis by simp
qed

subsection \<open>The message tool\<close>

text \<open>
  Claim C8. On a repository with a non-empty diff, \<open>generate_commit_message\<close> returns the
  constant text \<^verbatim>\<open>testing commit message\<close>, whatever \<open>language\<close>, \<open>model\<close> and \<open>temperature\<close>
  are; it runs the repository check and the diff, prints the diff, and neither reads the
  credential nor calls the completion service.
\<close>

theorem generate_commit_message_constant:
  assumes "ensure_repo sys cfg p st = (Inr repo, st1)"
    and "run_git sys (if staged_only then [''diff'', ''--staged''] else [''diff'']) repo st1
           = (Inr diff, st2)"
    and "diff \<noteq> []"
  shows "generate_commit_message sys cfg p staged_only lang mdl temp st
           = (Inr ''testing commit message'', log (Print diff) st2)
         \<and> trace (log (Print diff) st2) = trace st
              @ [Subprocess [''git'', ''rev-parse'', ''--show-toplevel''] repo,
                 Subprocess (''git'' # (if staged_only then [''diff'', ''--staged''] else [''diff''])) repo,
                 Print diff]
         \<and> world (log (Print diff) st2) = world st2"
proof -
  have res: "generate_commit_message sys cfg p staged_only lang mdl temp st
               = (Inr ''testing commit message'', log (Print diff) st2)"
    using assms by (auto simp: generate_commit_message_def and_then_def return_def print_def)
  have t1: "trace st1 = trace st @ [Subprocess [''git'', ''rev-parse'', ''--show-toplevel''] repo]"
    using assms(1) by (rule ensure_repo_Inr)
  have t2: "trace st2 = trace st1
              @ [Subprocess (''git'' # (if staged_only then [''diff'', ''--staged''] else [''diff''])) repo]"
    using assms(2) by (rule run_git_trace)
  from res t1 t2 show ?thesis by (simp add: log_def)
qed

theorem generate_commit_message_constant_witness:
  "generate_commit_message (sim_sys (sim0\<lparr>sim_api_key := None\<rparr>)) cfg0 ''.'' True
       (Some ''French'') (Some ''gpt-4o'') (Some 1) st0
     = (Inr ''testing commit message'',
        \<lparr>world = [],
         trace = [Subprocess [''git'', ''rev-parse'', ''--show-toplevel''] ''/srv/repo'',
                  Subprocess [''git'', ''diff'', ''--staged''] ''/srv/repo'',
                  Print ''+password=hunter2'']\<rparr>)"
proof -
  let ?sys = "sim_sys (sim0\<lparr>sim_api_key := None\<rparr>)"
  let ?e1 = "Subprocess [''git'', ''rev-parse'', ''--show-toplevel''] ''/srv/repo''"
  let ?e2 = "Subprocess [''git'', ''diff'', ''--staged''] ''/srv/repo''"
  let ?st1 = "\<lparr>world = [], trace = [?e1]\<rparr> :: (string list list) state"
  let ?st2 = "\<lparr>world = [], trace = [?e1, ?e2]\<rparr> :: (string list list) state"
  have h1: "ensure_repo ?sys cfg0 ''.'' st0 = (Inr ''/srv/repo'', ?st1)"
    by (simp add: sim_defs act_defs)
  have h2: "run_git ?sys (if True then [''diff'', ''--staged''] else [''diff'']) ''/srv/repo'' ?st1
              = (Inr ''+password=hunter2'', ?st2)"
    by (simp add: sim_defs act_defs)
  have h3: "''+password=hunter2'' \<noteq> []"
    by simp
  from generate_commit_message_constant [OF h1 h2 h3, of "Some ''French''" "Some ''gpt-4o''" "Some 1"]
  show ?thesis by (simp add: log_def)
qed

lemma redact_example: "redact_secrets ''+password=hunter2'' = ''+password=***''"
  by code_simp

text \<open>
  Claim C2 asks that no diff text leaves the process before it is redacted. The tool
  \<open>generate_commit_message\<close> prints the diff it read, unredacted: on the simulated
  repository, whose staged diff holds a password, the trace ends with the raw line, which
  differs from its redacted form.
\<close>

theorem generate_commit_message_prints_raw_diff:
  "snd (generate_commit_message (sim_sys sim0) cfg0 ''.'' True None None None st0)
     = \<lparr>world = [],
        trace = [Subprocess [''git'', ''rev-parse'', ''--show-toplevel''] ''/srv/repo'',
                 Subprocess [''git'', ''diff'', ''--staged''] ''/srv/repo'',
                 Print ''+password=hunter2'']\<rparr>
   \<and> redact_secrets ''+password=hunter2'' = ''+password=***''"
  by (simp add: redact_example generate_commit_message_def print_def sim_defs act_defs)

subsection \<open>The diff tool\<close>

lemma capped_over:
  assumes "0 \<le> limit" and "int (length d) > limit"
  shows "int (length (capped limit d)) = limit + int (length truncation_marker)"
    and "suffix truncation_marker (capped limit d)"
  using assms by (auto simp: capped_def slice_to_def suffix_def)

text \<open>
  Claim C4, as amended. When the redacted diff is strictly longer than the cap in force
  (\<open>max_chars\<close> when positive, else \<open>MAX_DIFF_CHARS\<close>) and that cap is not negative, the text
  returned by \<open>get_git_diff\<close> has length cap + length of the marker and ends with the
  marker.
\<close>

theorem get_git_diff_truncation:
  assumes "ensure_repo sys cfg p st = (Inr repo, st1)"
    and "run_git sys (diff_args staged_only context_lines filter_path) repo st1 = (Inr diff, st2)"
    and "diff \<noteq> []"
    and "0 \<le> effective_limit cfg max_chars"
    and "int (length (redact_secrets diff)) > effective_limit cfg max_chars"
  shows "get_git_diff sys cfg p staged_only context_lines filter_path max_chars st
           = (Inr (capped (effective_limit cfg max_chars) (redact_secrets diff)), st2)
         \<and> int (length (capped (effective_limit cfg max_chars) (redact_secrets diff)))
             = effective_limit cfg max_chars + int (length truncation_marker)
         \<and> suffix truncation_marker (capped (effective_limit cfg max_chars) (redact_secrets diff))"
proof -
  have "get_git_diff sys cfg p staged_only context_lines filter_path max_chars st
          = (Inr (capped (effective_limit cfg max_chars) (redact_secrets diff)), st2)"
    using assms(1-3) by (simp add: get_git_diff_def and_then_def return_def)
  with capped_over [OF assms(4) assms(5)] show ?thesis by simp
qed

theorem get_git_diff_truncation_witness:
  "get_git_diff (sim_sys sim0) cfg0 ''.'' True 3 None (Some 5) st0
     = (Inr (''+pass'' @ truncation_marker),
        \<lparr>world = [],
         trace = [Subprocess [''git'', ''rev-parse'', ''--show-toplevel''] ''/srv/repo'',
                  Subprocess [''git'', ''diff'', ''--staged'', ''-U3''] ''/srv/repo'']\<rparr>)
   \<and> int (length (''+pass'' @ truncation_marker)) = 5 + int (length truncation_marker)
   \<and> suffix truncation_marker (''+pass'' @ truncation_marker)"
proof -
  let ?e1 = "Subprocess [''git'', ''rev-parse'', ''--show-toplevel''] ''/srv/repo''"
  let ?e2 = "Subprocess [''git'', ''diff'', ''--staged'', ''-U3''] ''/srv/repo''"
  let ?st1 = "\<lparr>world = [], trace = [?e1]\<rparr> :: (string list list) state"
  let ?st2 = "\<lparr>world = [], trace = [?e1, ?e2]\<rparr> :: (string list list) state"
  have h1: "ensure_repo (sim_sys sim0) cfg0 ''.'' st0 = (Inr ''/srv/repo'', ?st1)"
    by (simp add: sim_defs act_defs)
  have h2: "run_git (sim_sys sim0) (diff_args True 3 None) ''/srv/repo'' ?st1
              = (Inr ''+password=hunter2'', ?st2)"
    by (simp add: sim_defs act_defs diff_args_def str_int_def)
  have h3: "''+password=hunter2'' \<noteq> []"
    by simp
  have h4: "0 \<le> effective_limit cfg0 (Some 5)"
    by (simp add: effective_limit_def)
  have h5: "int (length (redact_secrets ''+password=hunter2'')) > effective_limit cfg0 (Some 5)"
    by (simp add: redact_example effective_limit_def)
  have c: "capped (effective_limit cfg0 (Some 5)) (redact_secrets ''+password=hunter2'')
             = ''+pass'' @ truncation_marker"
    by (simp add: redact_example effective_limit_def capped_def slice_to_def)
  from get_git_diff_truncation [OF h1 h2 h3 h4 h5] show ?thesis
    unfolding c by simp
qed

text \<open>
  The claim as first stated does not ask for a cap that is not negative.
  \<open>MAX_DIFF_CHARS\<close> is whatever integer the environment holds; with \<^verbatim>\<open>-5\<close> every diff is
  longer than the cap, the slice drops the last five characters, and the length of the
  result is not cap + length of the marker.
\<close>

theorem get_git_diff_negative_cap_counterexample:
  "effective_limit (cfg0\<lparr>MAX_DIFF_CHARS := - 5\<rparr>) None = - 5
   \<and> int (length (redact_secrets ''+password=hunter2'')) > - 5
   \<and> fst (get_git_diff (sim_sys sim0) (cfg0\<lparr>MAX_DIFF_CHARS := - 5\<rparr>) ''.'' True 3 None None st0)
       = Inr (''+passwor'' @ truncation_marker)
   \<and> int (length (''+passwor'' @ truncation_marker)) \<noteq> - 5 + int (length truncation_marker)"
  by (simp add: redact_example get_git_diff_def effective_limit_def capped_def slice_to_def
        diff_args_def str_int_def sim_defs act_defs truncation_marker_def)

subsection \<open>Commit and push\<close>

lemma commit_and_push_until_message:
  assumes "ensure_repo sys cfg (path rq) st = (Inr repo, st1)"
    and "run_git sys [''status'', ''--porcelain''] repo st1 = (Inr status, st2)"
    and "status \<noteq> []"
    and "(if truthy (branch rq) then return (the (branch rq)) else get_current_branch sys repo) st2
           = (Inr b, st3)"
    and "\<not> (push rq \<and> \<not> allow_main_push rq \<and> b \<in> set [''main'', ''master''])"
  shows "commit_and_push sys cfg rq st =
           and_then (resolve_message sys cfg rq repo) (\<lambda>r.
             case r of
               Inl early \<Rightarrow> return early
             | Inr final_message \<Rightarrow>
                 if dry_run rq
                 then return (dedent sys (dry_run_text b (remote rq) final_message))
                 else and_then (run_git sys (commit_args rq final_message) repo)
                        (\<lambda>_. push_phase sys rq repo b)) st3"
  using assms by (auto simp add: commit_and_push_def and_then_def return_def)

text \<open>
  Claim C6. With \<open>push\<close> set and \<open>dry_run\<close> unset, when the commit command has succeeded and
  the list of remotes does not hold the one named, \<open>commit_and_push\<close> raises the
  remote-not-found error; behind the commit the only command run is \<^verbatim>\<open>git remote\<close>, so
  nothing undoes the commit: the world is the one the commit left, as seen through that
  listing.
\<close>

theorem remote_not_found_keeps_commit:
  assumes "push rq" and "\<not> dry_run rq"
    and "ensure_repo sys cfg (path rq) st = (Inr repo, st1)"
    and "run_git sys [''status'', ''--porcelain''] repo st1 = (Inr status, st2)"
    and "status \<noteq> []"
    and "(if truthy (branch rq) then return (the (branch rq)) else get_current_branch sys repo) st2
           = (Inr b, st3)"
    and "\<not> (push rq \<and> \<not> allow_main_push rq \<and> b \<in> set [''main'', ''master''])"
    and "resolve_message sys cfg rq repo st3 = (Inr (Inr m), st4)"
    and "run_git sys (commit_args rq m) repo st4 = (Inr out, st5)"
    and "run_git sys [''remote''] repo st5 = (Inr remotes, st6)"
    and "remote rq \<notin> set (splitlines remotes)"
  shows "commit_and_push sys cfg rq st
           = (Inl (RuntimeError (remote_not_found_text (remote rq))), st6)
         \<and> trace st6 = trace st4 @ [Subprocess (''git'' # commit_args rq m) repo,
                                    Subprocess [''git'', ''remote''] repo]
         \<and> world st6 = snd (subprocess_run sys [''git'', ''remote''] repo (world st5))"
proof -
  have "commit_and_push sys cfg rq st
          = (Inl (RuntimeError (remote_not_found_text (remote rq))), st6)"
    unfolding commit_and_push_until_message [OF assms(3-7)]
    using assms(1,2,8-11)
    by (simp add: and_then_def return_def raise_def push_phase_def has_remote_def)
  moreover have "trace st5 = trace st4 @ [Subprocess (''git'' # commit_args rq m) repo]"
    using assms(9) by (rule run_git_trace)
  moreover have "trace st6 = trace st5 @ [Subprocess [''git'', ''remote''] repo]"
    using assms(10) by (rule run_git_trace)
  moreover have "world st6 = snd (subprocess_run sys [''git'', ''remote''] repo (world st5))"
    using assms(10) by (rule run_git_world)
  ultimately show ?thesis by simp
qed

theorem remote_not_found_keeps_commit_witness:
  "commit_and_push (sim_sys (sim0\<lparr>sim_remotes := ''upstream''\<rparr>)) cfg0
       (default_request\<lparr>message := ''fix: x'', allow_main_push := True\<rparr>) st0
     = (Inl (RuntimeError (remote_not_found_text ''origin'')),
        \<lparr>world = [[''git'', ''commit'', ''-m'', ''fix: x'']],
         trace = [Subprocess [''git'', ''rev-parse'', ''--show-toplevel''] ''/srv/repo'',
                  Subprocess [''git'', ''status'', ''--porcelain''] ''/srv/repo'',
                  Subprocess [''git'', ''rev-parse'', ''--abbrev-ref'', ''HEAD''] ''/srv/repo'',
                  Subprocess [''git'', ''commit'', ''-m'', ''fix: x''] ''/srv/repo'',
                  Subprocess [''git'', ''remote''] ''/srv/repo'']\<rparr>)"
proof -
  let ?sys = "sim_sys (sim0\<lparr>sim_remotes := ''upstream''\<rparr>)"
  let ?rq = "default_request\<lparr>message := ''fix: x'', allow_main_push := True\<rparr>"
  let ?e1 = "Subprocess [''git'', ''rev-parse'', ''--show-toplevel''] ''/srv/repo''"
  let ?e2 = "Subprocess [''git'', ''status'', ''--porcelain''] ''/srv/repo''"
  let ?e3 = "Subprocess [''git'', ''rev-parse'', ''--abbrev-ref'', ''HEAD''] ''/srv/repo''"
  let ?e4 = "Subprocess [''git'', ''commit'', ''-m'', ''fix: x''] ''/srv/repo''"
  let ?e5 = "Subprocess [''git'', ''remote''] ''/srv/repo''"
  let ?st1 = "\<lparr>world = [], trace = [?e1]\<rparr> :: (string list list) state"
  let ?st2 = "\<lparr>world = [], trace = [?e1, ?e2]\<rparr> :: (string list list) state"
  let ?st3 = "\<lparr>world = [], trace = [?e1, ?e2, ?e3]\<rparr> :: (string list list) state"
  let ?st5 = "\<lparr>world = [[''git'', ''commit'', ''-m'', ''fix: x'']],
               trace = [?e1, ?e2, ?e3, ?e4]\<rparr> :: (string list list) state"
  let ?st6 = "\<lparr>world = [[''git'', ''commit'', ''-m'', ''fix: x'']],
               trace = [?e1, ?e2, ?e3, ?e4, ?e5]\<rparr> :: (string list list) state"
  have h1: "push ?rq" and h2: "\<not> dry_run ?rq"
    by (simp_all add: default_request_def)
  have h3: "ensure_repo ?sys cfg0 (path ?rq) st0 = (Inr ''/srv/repo'', ?st1)"
    by (simp add: sim_defs act_defs)
  have h4: "run_git ?sys [''status'', ''--porcelain''] ''/srv/repo'' ?st1 = (Inr ''M a.txt'', ?st2)"
    by (simp add: sim_defs act_defs)
  have h5: "''M a.txt'' \<noteq> []"
    by simp
  have h6: "(if truthy (branch ?rq) then return (the (branch ?rq))
             else get_current_branch ?sys ''/srv/repo'') ?st2 = (Inr ''main'', ?st3)"
    by (simp add: sim_defs act_defs)
  have h7: "\<not> (push ?rq \<and> \<not> allow_main_push ?rq \<and> ''main'' \<in> set [''main'', ''master''])"
    by (simp add: default_request_def)
  have h8: "resolve_message ?sys cfg0 ?rq ''/srv/repo'' ?st3 = (Inr (Inr ''fix: x''), ?st3)"
    by (simp add: resolve_message_def sim_defs act_defs)
  have h9: "run_git ?sys (commit_args ?rq ''fix: x'') ''/srv/repo'' ?st3 = (Inr [], ?st5)"
    by (simp add: commit_args_def sim_defs act_defs)
  have h10: "run_git ?sys [''remote''] ''/srv/repo'' ?st5 = (Inr ''upstream'', ?st6)"
    by (simp add: sim_defs act_defs)
  have h11: "remote ?rq \<notin> set (splitlines ''upstream'')"
    by (simp add: default_request_def splitlines_def is_linebreak_def)
  from remote_not_found_keeps_commit [OF h1 h2 h3 h4 h5 h6 h7 h8 h9 h10 h11]
  show ?thesis by (simp add: default_request_def)
qed

text \<open>
  Claim C10. A dry run with an empty message, generation switched on and a non-empty diff
  still runs the diff command, still requires the credential and still calls the
  completion service, on the redacted and capped diff: without the credential the call
  raises; with it the request is sent, and the preview is built from the cleaned reply.
  No commit and no push is run.
\<close>

theorem dry_run_still_calls_completion:
  assumes "dry_run rq" and "strip (message rq) = []" and "generate_if_empty rq"
    and "ensure_repo sys cfg (path rq) st = (Inr repo, st1)"
    and "run_git sys [''status'', ''--porcelain''] repo st1 = (Inr status, st2)"
    and "status \<noteq> []"
    and "(if truthy (branch rq) then return (the (branch rq)) else get_current_branch sys repo) st2
           = (Inr b, st3)"
    and "\<not> (push rq \<and> \<not> allow_main_push rq \<and> b \<in> set [''main'', ''master''])"
    and "run_git sys (if staged_only_for_gen rq then [''diff'', ''--staged''] else [''diff'']) repo st3
           = (Inr diff, st4)"
    and "diff \<noteq> []"
    and "request = completion_request sys (capped (MAX_DIFF_CHARS cfg) (redact_secrets diff))
           (language rq)
           (if truthy (model rq) then the (model rq) else DEFAULT_OPENAI_MODEL cfg)
           (case temperature rq of None \<Rightarrow> OPENAI_TEMPERATURE cfg | Some t \<Rightarrow> t)"
  shows "commit_and_push sys cfg rq st =
           (if \<not> truthy (getenv sys (world st4) ''OPENAI_API_KEY'')
            then (Inl (RuntimeError ''OPENAI_API_KEY is not set. Cannot generate commit message.''), st4)
            else case chat_create sys request (world st4) of
                   (Inl e, w') \<Rightarrow> (Inl e, log (ChatCompletion request) (st4\<lparr>world := w'\<rparr>))
                 | (Inr content, w') \<Rightarrow>
                     if clean_reply content = []
                     then (Inl (RuntimeError ''Commit message is required (generation disabled or failed).''),
                           log (ChatCompletion request) (st4\<lparr>world := w'\<rparr>))
                     else (Inr (dedent sys (dry_run_text b (remote rq) (clean_reply content))),
                           log (ChatCompletion request) (st4\<lparr>world := w'\<rparr>)))
         \<and> trace st4 = trace st3
              @ [Subprocess (''git'' # (if staged_only_for_gen rq then [''diff'', ''--staged''] else [''diff''])) repo]"
proof -
  have "commit_and_push sys cfg rq st =
           (if \<not> truthy (getenv sys (world st4) ''OPENAI_API_KEY'')
            then (Inl (RuntimeError ''OPENAI_API_KEY is not set. Cannot generate commit message.''), st4)
            else case chat_create sys request (world st4) of
                   (Inl e, w') \<Rightarrow> (Inl e, log (ChatCompletion request) (st4\<lparr>world := w'\<rparr>))
                 | (Inr content, w') \<Rightarrow>
                     if clean_reply content = []
                     then (Inl (RuntimeError ''Commit message is required (generation disabled or failed).''),
                           log (ChatCompletion request) (st4\<lparr>world := w'\<rparr>))
                     else (Inr (dedent sys (dry_run_text b (remote rq) (clean_reply content))),
                           log (ChatCompletion request) (st4\<lparr>world := w'\<rparr>)))"
    unfolding commit_and_push_until_message [OF assms(4-8)]
    using assms(1-3,9-11)
    by (simp add: resolve_message_def openai_generate_commit_message_def and_then_def
          return_def raise_def Let_def split: prod.splits sum.splits)
  moreover have "trace st4 = trace st3
      @ [Subprocess (''git'' # (if staged_only_for_gen rq then [''diff'', ''--staged''] else [''diff''])) repo]"
    using assms(9) by (rule run_git_trace)
  ultimately show ?thesis by simp
qed

theorem dry_run_still_calls_completion_witness:
  "commit_and_push (sim_sys sim0) cfg0 (default_request\<lparr>branch := Some ''dev'', dry_run := True\<rparr>) st0
     = (Inr (dry_run_text ''dev'' ''origin'' ''feat: add login''),
        \<lparr>world = [],
         trace = [Subprocess [''git'', ''rev-parse'', ''--show-toplevel''] ''/srv/repo'',
                  Subprocess [''git'', ''status'', ''--porcelain''] ''/srv/repo'',
                  Subprocess [''git'', ''diff'', ''--staged''] ''/srv/repo'',
                  ChatCompletion (completion_request (sim_sys sim0) ''+password=***'' None
                                    ''gpt-4o-mini'' 0.2)]\<rparr>)"
proof -
  let ?sys = "sim_sys sim0"
  let ?rq = "default_request\<lparr>branch := Some ''dev'', dry_run := True\<rparr>"
  let ?e1 = "Subprocess [''git'', ''rev-parse'', ''--show-toplevel''] ''/srv/repo''"
  let ?e2 = "Subprocess [''git'', ''status'', ''--porcelain''] ''/srv/repo''"
  let ?e3 = "Subprocess [''git'', ''diff'', ''--staged''] ''/srv/repo''"
  let ?st1 = "\<lparr>world = [], trace = [?e1]\<rparr> :: (string list list) state"
  let ?st2 = "\<lparr>world = [], trace = [?e1, ?e2]\<rparr> :: (string list list) state"
  let ?st4 = "\<lparr>world = [], trace = [?e1, ?e2, ?e3]\<rparr> :: (string list list) state"
  let ?request = "completion_request ?sys ''+password=***'' None ''gpt-4o-mini'' 0.2"
  have h1: "dry_run ?rq" and h2: "strip (message ?rq) = []" and h3: "generate_if_empty ?rq"
    by (simp_all add: default_request_def strip_def strip_chars_def)
  have h4: "ensure_repo ?sys cfg0 (path ?rq) st0 = (Inr ''/srv/repo'', ?st1)"
    by (simp add: sim_defs act_defs)
  have h5: "run_git ?sys [''status'', ''--porcelain''] ''/srv/repo'' ?st1 = (Inr ''M a.txt'', ?st2)"
    by (simp add: sim_defs act_defs)
  have h6: "''M a.txt'' \<noteq> []"
    by simp
  have h7: "(if truthy (branch ?rq) then return (the (branch ?rq))
             else get_current_branch ?sys ''/srv/repo'') ?st2 = (Inr ''dev'', ?st2)"
    by (simp add: default_request_def return_def)
  have h8: "\<not> (push ?rq \<and> \<not> allow_main_push ?rq \<and> ''dev'' \<in> set [''main'', ''master''])"
    by simp
  have h9: "run_git ?sys (if staged_only_for_gen ?rq then [''diff'', ''--staged''] else [''diff''])
              ''/srv/repo'' ?st2 = (Inr ''+password=hunter2'', ?st4)"
    by (simp add: sim_defs act_defs)
  have h10: "''+password=hunter2'' \<noteq> []"
    by simp
  have h11: "?request = completion_request ?sys
               (capped (MAX_DIFF_CHARS cfg0) (redact_secrets ''+password=hunter2'')) (language ?rq)
               (if truthy (model ?rq) then the (model ?rq) else DEFAULT_OPENAI_MODEL cfg0)
               (case temperature ?rq of None \<Rightarrow> OPENAI_TEMPERATURE cfg0 | Some t \<Rightarrow> t)"
    by (simp add: redact_example capped_def cfg0_def default_request_def)
  have k: "truthy (getenv ?sys (world ?st4) ''OPENAI_API_KEY'')"
    by (simp add: sim_sys_def sim0_def)
  have c: "chat_create ?sys ?request (world ?st4) = (Inr ''feat: add login'', [])"
    by (simp add: sim_sys_def sim0_def)
  have r: "clean_reply ''feat: add login'' = ''feat: add login''"
    by (simp add: clean_reply_def strip_def strip_chars_def is_space_def py_whitespace_def)
  from dry_run_still_calls_completion [OF h1 h2 h3 h4 h5 h6 h7 h8 h9 h10 h11]
  show ?thesis
    using k c r by (simp add: log_def default_request_def sim_sys_def)
qed

text \<open>
  Claim C5 asks that a failure of the plain push is surfaced as it is and that the
  upstream-setting push is run only when the upstream cannot be read. The plain push
  stands under the same \<^verbatim>\<open>try\<close> as the upstream check, so its failure is caught as well:
  on the simulated repository, with an upstream configured and a plain push that is
  rejected, the upstream-setting push is run after it and the call reports success.
\<close>

theorem failed_push_falls_back_to_set_upstream:
  "commit_and_push (sim_sys (sim0\<lparr>sim_push_ok := False\<rparr>)) cfg0
       (default_request\<lparr>message := ''fix: x'', allow_main_push := True\<rparr>) st0
     = (Inr ''[commit-buddy] Committed and pushed to origin/main.'',
        \<lparr>world = [[''git'', ''commit'', ''-m'', ''fix: x''],
                  [''git'', ''push'', ''--set-upstream'', ''origin'', ''main'']],
         trace = [Subprocess [''git'', ''rev-parse'', ''--show-toplevel''] ''/srv/repo'',
                  Subprocess [''git'', ''status'', ''--porcelain''] ''/srv/repo'',
                  Subprocess [''git'', ''rev-parse'', ''--abbrev-ref'', ''HEAD''] ''/srv/repo'',
                  Subprocess [''git'', ''commit'', ''-m'', ''fix: x''] ''/srv/repo'',
                  Subprocess [''git'', ''remote''] ''/srv/repo'',
                  Subprocess [''git'', ''rev-parse'', ''--abbrev-ref'', ''--symbolic-full-name'',
                              ''@'' @ ''{u}''] ''/srv/repo'',
                  Subprocess [''git'', ''push'', ''origin'', ''main''] ''/srv/repo'',
                  Subprocess [''git'', ''push'', ''--set-upstream'', ''origin'', ''main'']
                    ''/srv/repo'']\<rparr>)"
  by (simp add: commit_and_push_def resolve_message_def push_phase_def commit_args_def
        splitlines_def is_linebreak_def sim_defs act_defs)

text \<open>The same for every system: once the upstream was read and the plain push has failed,
  the push phase goes on with the upstream-setting push from the state the failure left.\<close>

lemma push_phase_catches_failed_push:
  assumes "push rq"
    and "run_git sys [''remote''] repo st = (Inr remotes, st1)"
    and "remote rq \<in> set (splitlines remotes)"
    and "run_git sys [''rev-parse'', ''--abbrev-ref'', ''--symbolic-full-name'', ''@'' @ ''{u}''] repo st1
           = (Inr upstream, st2)"
    and "run_git sys [''push'', remote rq, b] repo st2 = (Inl e, st3)"
  shows "push_phase sys rq repo b st =
           and_then (run_git sys [''push'', ''--set-upstream'', remote rq, b] repo)
             (\<lambda>_. return (''[commit-buddy] Committed and pushed to '' @ remote rq @ ''/'' @ b @ ''.''))
             st3"
  using assms
  by (simp add: push_phase_def has_remote_def and_then_def return_def try_except_def)

section \<open>Properties of the redaction\<close>

subsection \<open>The ends of a match\<close>

lemma run_le_length: "run P hi s \<le> length s"
  by (auto simp: run_def Let_def length_takeWhile_le min.coboundedI2 split: option.splits)

lemma in_ends_Cons:
  "n \<in> set (ends (Rep P lo hi # as) s) \<longleftrightarrow>
     (\<exists>k m. lo \<le> k \<and> k \<le> run P hi s \<and> m \<in> set (ends as (drop k s)) \<and> n = k + m)"
  by (auto simp: ends.simps(2) less_Suc_eq_le)

declare ends.simps(2) [simp del]

lemma ends_nonempty_Cons:
  "ends (Rep P lo hi # as) s \<noteq> [] \<longleftrightarrow>
     (\<exists>k. lo \<le> k \<and> k \<le> run P hi s \<and> ends as (drop k s) \<noteq> [])"
proof -
  have "ends (Rep P lo hi # as) s \<noteq> [] \<longleftrightarrow> (\<exists>n. n \<in> set (ends (Rep P lo hi # as) s))"
    by (metis equals0I length_greater_0_conv length_pos_if_in_set set_empty)
  also have "\<dots> \<longleftrightarrow> (\<exists>k. lo \<le> k \<and> k \<le> run P hi s \<and> (\<exists>m. m \<in> set (ends as (drop k s))))"
    unfolding in_ends_Cons by blast
  also have "\<dots> \<longleftrightarrow> (\<exists>k. lo \<le> k \<and> k \<le> run P hi s \<and> ends as (drop k s) \<noteq> [])"
    by (metis equals0I length_greater_0_conv length_pos_if_in_set set_empty)
  finally show ?thesis .
qed

lemma ends_le_length: "n \<in> set (ends p s) \<Longrightarrow> n \<le> length s"
proof (induction p arbitrary: s n)
  case Nil
  then show ?case by simp
next
  case (Cons a p)
  obtain P lo hi where a: "a = Rep P lo hi" by (cases a)
  from Cons.prems obtain k m where km: "k \<le> run P hi s" "m \<in> set (ends p (drop k s))" "n = k + m"
    unfolding a in_ends_Cons by blast
  from Cons.IH [OF km(2)] have "m \<le> length s - k" by simp
  moreover have "k \<le> length s" using km(1) run_le_length [of P hi s] by simp
  ultimately show ?case using km(3) by simp
qed

lemma run_one_Cons: "run P (Some (Suc 0)) (c # cs) = (if P c then 1 else 0)"
  by (simp add: run_def)

lemma run_one_Nil: "run P hi [] = 0"
  by (simp add: run_def split: option.splits)

lemma run_unbounded: "run P None s = length (takeWhile P s)"
  by (simp add: run_def)

lemma ends_single:
  "ends (Rep P (Suc 0) (Some (Suc 0)) # as) s \<noteq> [] \<longleftrightarrow> (\<exists>c cs. s = c # cs \<and> P c \<and> ends as cs \<noteq> [])"
proof (cases s)
  case Nil
  then show ?thesis by (simp add: ends_nonempty_Cons run_one_Nil)
next
  case (Cons c cs)
  show ?thesis unfolding Cons ends_nonempty_Cons run_one_Cons
    by (auto simp: le_Suc_eq)
qed

lemma ends_star_Nil: "ends (Rep P 0 None # as) [] \<noteq> [] \<longleftrightarrow> ends as [] \<noteq> []"
  by (simp add: ends_nonempty_Cons run_one_Nil)

lemma ends_star_Cons:
  "ends (Rep P 0 None # as) (c # cs) \<noteq> [] \<longleftrightarrow>
     ends as (c # cs) \<noteq> [] \<or> (P c \<and> ends (Rep P 0 None # as) cs \<noteq> [])"
proof (cases "P c")
  case False
  then show ?thesis by (simp add: ends_nonempty_Cons run_unbounded)
next
  case True
  have "(\<exists>k. k \<le> Suc (length (takeWhile P cs)) \<and> ends as (drop k (c # cs)) \<noteq> []) \<longleftrightarrow>
        ends as (c # cs) \<noteq> [] \<or> (\<exists>k. k \<le> length (takeWhile P cs) \<and> ends as (drop k cs) \<noteq> [])"
    (is "?L \<longleftrightarrow> ?R")
  proof
    assume ?L
    then obtain k where k: "k \<le> Suc (length (takeWhile P cs))" "ends as (drop k (c # cs)) \<noteq> []"
      by blast
    show ?R
    proof (cases k)
      case 0
      with k show ?thesis by simp
    next
      case (Suc k')
      with k show ?thesis by auto
    qed
  next
    assume ?R
    then show ?L
    proof
      assume "ends as (c # cs) \<noteq> []"
      then have "0 \<le> Suc (length (takeWhile P cs)) \<and> ends as (drop 0 (c # cs)) \<noteq> []" by simp
      then show ?L by blast
    next
      assume "\<exists>k. k \<le> length (takeWhile P cs) \<and> ends as (drop k cs) \<noteq> []"
      then obtain k where "k \<le> length (takeWhile P cs)" "ends as (drop k cs) \<noteq> []" by blast
      then have "Suc k \<le> Suc (length (takeWhile P cs)) \<and> ends as (drop (Suc k) (c # cs)) \<noteq> []"
        by simp
      then show ?L by blast
    qed
  qed
  with True show ?thesis by (simp add: ends_nonempty_Cons run_unbounded)
qed

lemma ends_plus_last:
  "ends [Rep P (Suc 0) None] s \<noteq> [] \<longleftrightarrow> (\<exists>c cs. s = c # cs \<and> P c)"
  by (cases s) (auto simp: ends_nonempty_Cons run_unbounded)

subsection \<open>The acceptors and the patterns say the same\<close>

lemma map_add_0: "map ((+) (0::nat)) xs = xs"
  by (induction xs) simp_all

lemma ends_lit_ci:
  "ends (lit_ci w @ q) s =
     (if ci_prefix w s then map (\<lambda>n. length w + n) (ends q (drop (length w) s)) else [])"
proof (induction w arbitrary: s)
  case Nil
  then show ?case by (simp add: lit_ci_def map_add_0)
next
  case (Cons a w)
  have step: "\<And>s. ends (lit_ci (a # w) @ q) s
                = concat (map (\<lambda>k. map (\<lambda>n. k + n) (ends (lit_ci w @ q) (drop k s)))
                            (rev [Suc 0 ..< Suc (run (ci a) (Some (Suc 0)) s)]))"
    by (simp add: lit_ci_def ends.simps(2))
  show ?case
  proof (cases s)
    case Nil
    then show ?thesis by (simp add: step run_one_Nil)
  next
    case (Cons c cs)
    show ?thesis unfolding Cons step run_one_Cons
      by (simp add: Cons.IH comp_def)
  qed
qed

lemma acc_val_ends: "ends [ws_star, Rep not_sp_nl (Suc 0) None] s \<noteq> [] \<longleftrightarrow> acc_val s"
proof (induction s)
  case Nil
  then show ?case by (simp add: ws_star_def ends_star_Nil ends_plus_last)
next
  case (Cons c cs)
  then show ?case unfolding ws_star_def by (simp add: ends_star_Cons ends_plus_last)
qed

lemma acc_eq_ends:
  "ends ([ws_star] @ lit_ci ''='' @ [ws_star] @ [Rep not_sp_nl (Suc 0) None]) s \<noteq> [] \<longleftrightarrow> acc_eq s"
proof (induction s)
  case Nil
  then show ?case by (simp add: ws_star_def lit_ci_def ends_star_Nil ends_single)
next
  case (Cons c cs)
  have "ends (Rep (ci CHR ''='') (Suc 0) (Some (Suc 0)) # [ws_star, Rep not_sp_nl (Suc 0) None]) (c # cs) \<noteq> []
          \<longleftrightarrow> ci CHR ''='' c \<and> acc_val cs"
    by (simp add: ends_single acc_val_ends)
  with Cons show ?case unfolding ws_star_def by (simp add: lit_ci_def ends_star_Cons)
qed

lemma acc_lit_prefix: "acc_lit w s \<longleftrightarrow> ci_prefix w s \<and> acc_eq (drop (length w) s)"
  by (induction w s rule: acc_lit.induct) auto

lemma ends_pat_assign: "ends (pat_assign w) s \<noteq> [] \<longleftrightarrow> acc_lit w s"
proof -
  have "pat_assign w = lit_ci w @ ([ws_star] @ lit_ci ''='' @ [ws_star] @ [Rep not_sp_nl (Suc 0) None])"
    by (simp add: pat_assign_def)
  then show ?thesis
    by (simp only: ends_lit_ci acc_lit_prefix acc_eq_ends [symmetric] map_is_Nil_conv split: if_splits)
       auto
qed

lemma match_here_None: "match_here p s = None \<longleftrightarrow> ends p s = []"
  by (simp add: match_here_def split: list.splits)

lemma match_here_Some: "match_here p s = Some n \<longleftrightarrow> (\<exists>ns. ends p s = n # ns)"
  by (simp add: match_here_def split: list.splits)

text \<open>The first end of a pattern that finishes with an unbounded greedy class stops where
  the class stops.\<close>

lemma concat_shift_hd:
  "concat (map (\<lambda>k. map (\<lambda>m. k + m) (g k)) ks) = n # ns \<Longrightarrow>
     \<exists>k z zs. g k = z # zs \<and> n = k + (z :: nat)"
  by (induction ks) (auto simp: append_eq_Cons_conv map_eq_Cons_conv)

lemma ends_Cons_hd:
  "ends (Rep Q l h # as) s = n # ns \<Longrightarrow> \<exists>k z zs. ends as (drop k s) = z # zs \<and> n = k + z"
  unfolding ends.simps(2) by (rule concat_shift_hd)

lemma first_end_stops:
  "ends (pre @ [Rep P lo None]) s = n # ns \<Longrightarrow> drop n s = [] \<or> \<not> P (hd (drop n s))"
proof (induction pre arbitrary: s n ns)
  case Nil
  let ?K = "length (takeWhile P s)"
  from Nil have "map (\<lambda>k. k + 0) (rev [lo ..< Suc ?K]) = n # ns"
    by (simp add: ends.simps(2) run_unbounded comp_def concat_map_singleton)
  then have "lo \<le> ?K" "n = ?K"
    by (auto simp: rev_eq_Cons_iff split: if_splits)
  then have "drop n s = dropWhile P s"
    by (simp add: dropWhile_eq_drop)
  then show ?case
    by (metis hd_dropWhile)
next
  case (Cons a pre)
  obtain Q l h where a: "a = Rep Q l h" by (cases a)
  from Cons.prems obtain k z zs where z: "ends (pre @ [Rep P lo None]) (drop k s) = z # zs" "n = k + z"
    unfolding a using ends_Cons_hd [of Q l h "pre @ [Rep P lo None]" s n ns] by auto
  from Cons.IH [OF z(1)] show ?case
    by (simp add: z(2) add.commute)
qed

subsection \<open>Matches of an assignment pattern, and the substitution\<close>

declare re_sub.simps [simp del]

lemma ends_lower_bound:
  "n \<in> set (ends p s) \<Longrightarrow> Rep P lo hi \<in> set p \<Longrightarrow> lo \<le> n"
proof (induction p arbitrary: s n)
  case Nil
  then show ?case by simp
next
  case (Cons a p)
  obtain Q l h where a: "a = Rep Q l h" by (cases a)
  from Cons.prems(1) obtain k m where km: "l \<le> k" "m \<in> set (ends p (drop k s))" "n = k + m"
    unfolding a in_ends_Cons by blast
  show ?case
  proof (cases "Rep P lo hi = a")
    case True
    with a km show ?thesis by simp
  next
    case False
    with Cons.prems(2) have "Rep P lo hi \<in> set p" by simp
    from Cons.IH [OF km(2) this] km(3) show ?thesis by simp
  qed
qed

lemma pat_assign_split:
  "pat_assign w = (lit_ci w @ [ws_star] @ lit_ci ''='' @ [ws_star]) @ [Rep not_sp_nl (Suc 0) None]"
  by (simp add: pat_assign_def)

lemma match_assign_props:
  assumes "match_here (pat_assign w) s = Some n"
  shows "0 < n" and "n \<le> length s" and "boundary (drop n s)"
proof -
  from assms obtain ns where e: "ends (pat_assign w) s = n # ns"
    by (auto simp: match_here_Some)
  then have mem: "n \<in> set (ends (pat_assign w) s)" by simp
  have "Rep not_sp_nl (Suc 0) None \<in> set (pat_assign w)"
    by (simp add: pat_assign_def)
  from ends_lower_bound [OF mem this] show "0 < n" by simp
  from ends_le_length [OF mem] show "n \<le> length s" .
  from e have "drop n s = [] \<or> \<not> not_sp_nl (hd (drop n s))"
    unfolding pat_assign_split by (rule first_end_stops)
  then show "boundary (drop n s)"
    by (cases "drop n s") (auto simp: boundary_def)
qed

lemma ci_refl: "ci a a"
  by (simp add: ci_def)

lemma ci_prefix_self: "ci_prefix w (w @ x)"
  by (induction w) (simp_all add: ci_refl)

lemma not_space_eq: "\<not> is_space CHR ''=''" and not_space_star: "\<not> is_space CHR ''*''"
  by (simp_all add: is_space_def py_whitespace_def)

lemma takeWhile_boundary: "boundary rest \<Longrightarrow> takeWhile not_sp_nl rest = []"
  by (cases rest) (auto simp: boundary_def)

lemma match_placeholder:
  assumes "boundary rest"
  shows "match_here (pat_assign w) (w @ ''=***'' @ rest) = Some (length w + 4)"
proof -
  have star: "not_sp_nl CHR ''*''"
    by (simp add: not_sp_nl_def)
  have "ends ([ws_star] @ lit_ci ''='' @ [ws_star] @ [Rep not_sp_nl (Suc 0) None]) (''=***'' @ rest)
          = [4, 3, 2]"
    by (simp add: ws_star_def lit_ci_def ends.simps(2) run_unbounded run_one_Cons not_space_eq
          not_space_star ci_refl star takeWhile_boundary [OF assms]
          upt_rec [of "Suc 0"] upt_rec [of 2] upt_rec [of 3])
  then have "ends (pat_assign w) (w @ ''=***'' @ rest) = [length w + 4, length w + 3, length w + 2]"
    by (simp add: pat_assign_def ends_lit_ci ci_prefix_self)
  then show ?thesis by (simp add: match_here_def)
qed

lemma re_sub_Nil: "match_here p [] = None \<Longrightarrow> re_sub p r [] = []"
  by (simp add: re_sub.simps)

lemma re_sub_skip: "match_here p (c # cs) = None \<Longrightarrow> re_sub p r (c # cs) = c # re_sub p r cs"
  by (simp add: re_sub.simps)

lemma re_sub_hit:
  "match_here p (c # cs) = Some n \<Longrightarrow> 0 < n \<Longrightarrow> re_sub p r (c # cs) = r @ re_sub p r (drop n (c # cs))"
  by (simp add: re_sub.simps)

lemma acc_lit_Nil: "\<not> acc_lit w []"
  by (cases w) simp_all

lemma match_assign_None: "match_here (pat_assign w) s = None \<longleftrightarrow> \<not> acc_lit w s"
  by (simp add: match_here_None ends_pat_assign [symmetric])

lemma re_sub_assign_Nil: "re_sub (pat_assign w) r [] = []"
  by (simp add: re_sub_Nil match_assign_None acc_lit_Nil)

lemma re_sub_assign_skip:
  "\<not> acc_lit w (c # cs) \<Longrightarrow> re_sub (pat_assign w) r (c # cs) = c # re_sub (pat_assign w) r cs"
  by (simp add: re_sub_skip match_assign_None)

lemma re_sub_assign_hit:
  assumes "acc_lit w s"
  obtains n where "0 < n" "n \<le> length s" "boundary (drop n s)"
    "re_sub (pat_assign w) r s = r @ re_sub (pat_assign w) r (drop n s)"
proof -
  from assms obtain n where n: "match_here (pat_assign w) s = Some n"
    using match_assign_None [of w s] by (cases "match_here (pat_assign w) s") auto
  note p = match_assign_props [OF n]
  from assms obtain c cs where s: "s = c # cs"
    by (cases s) (auto simp: acc_lit_Nil)
  from n p(1) have "re_sub (pat_assign w) r s = r @ re_sub (pat_assign w) r (drop n s)"
    unfolding s by (rule re_sub_hit)
  with p that show ?thesis by blast
qed

subsection \<open>A substitution creates no match\<close>

lemma boundary_Nil: "boundary []"
  by (simp add: boundary_def)

lemma boundary_Cons: "boundary (c # cs) \<longleftrightarrow> \<not> not_sp_nl c"
  by (simp add: boundary_def)

text \<open>
  A substitution does not create a match in front of itself. \<open>wA\<close> is the key of the
  pattern that is looked for, \<open>wB\<close> and \<open>rB\<close> are the key and the replacement of the rule
  that is applied. The two hypotheses are checked by evaluation for the keys at hand.
\<close>

lemma no_creation_aux:
  fixes wA wB rB :: string
  assumes H2: "\<And>v y. suffix v wA \<Longrightarrow> v \<noteq> wA \<Longrightarrow> \<not> acc_lit v (rB @ y)"
    and H3: "\<And>d ds. acc_lit wB (d # ds) \<Longrightarrow> not_sp_nl d"
  shows "(acc_val (re_sub (pat_assign wB) rB cs) \<longrightarrow> acc_val cs)
       \<and> (\<forall>v. suffix v wA \<and> v \<noteq> wA \<longrightarrow> acc_lit v (re_sub (pat_assign wB) rB cs) \<longrightarrow> acc_lit v cs)"
proof (induction cs rule: length_induct)
  case (1 cs)
  let ?S = "re_sub (pat_assign wB) rB"
  show ?case
  proof (cases "acc_lit wB cs")
    case True
    then obtain n where n: "?S cs = rB @ ?S (drop n cs)"
      by (rule re_sub_assign_hit)
    from True obtain d ds where cs: "cs = d # ds"
      by (cases cs) (auto simp: acc_lit_Nil)
    from True H3 have "not_sp_nl d"
      unfolding cs by blast
    then have "acc_val cs"
      by (simp add: cs)
    moreover have "\<forall>v. suffix v wA \<and> v \<noteq> wA \<longrightarrow> \<not> acc_lit v (?S cs)"
      unfolding n using H2 by blast
    ultimately show ?thesis by blast
  next
    case False
    show ?thesis
    proof (cases cs)
      case Nil
      then show ?thesis by (simp add: re_sub_assign_Nil)
    next
      case (Cons d ds)
      from False have S: "?S (d # ds) = d # ?S ds"
        unfolding Cons by (rule re_sub_assign_skip)
      from 1 Cons have IHv: "acc_val (?S ds) \<Longrightarrow> acc_val ds"
        and IHl: "\<And>v. suffix v wA \<Longrightarrow> v \<noteq> wA \<Longrightarrow> acc_lit v (?S ds) \<Longrightarrow> acc_lit v ds"
        by auto
      have val: "acc_val (?S cs) \<longrightarrow> acc_val cs"
        using IHv by (auto simp: S Cons)
      have lit: "acc_lit v (?S cs) \<longrightarrow> acc_lit v cs" if v: "suffix v wA" "v \<noteq> wA" for v
      proof (cases v)
        case Nil
        from IHl [OF v] have "acc_eq (?S ds) \<Longrightarrow> acc_eq ds"
          unfolding Nil by simp
        with IHv show ?thesis
          unfolding Nil by (auto simp: S Cons)
      next
        case (Cons a v')
        from v(1) have s: "suffix v' wA"
          unfolding Cons by (rule suffix_ConsD)
        from v(1) have "length v \<le> length wA"
          by (rule suffix_length_le)
        then have "v' \<noteq> wA"
          unfolding Cons by auto
        from IHl [OF s this] show ?thesis
          unfolding Cons by (auto simp: S \<open>cs = d # ds\<close>)
      qed
      from val lit show ?thesis by blast
    qed
  qed
qed

lemma no_creation:
  fixes wA wB rB :: string
  assumes "\<And>v y. suffix v wA \<Longrightarrow> v \<noteq> wA \<Longrightarrow> \<not> acc_lit v (rB @ y)"
    and "\<And>d ds. acc_lit wB (d # ds) \<Longrightarrow> not_sp_nl d"
    and "wA \<noteq> []"
    and "acc_lit wA (c # re_sub (pat_assign wB) rB cs)"
  shows "acc_lit wA (c # cs)"
proof (cases wA)
  case Nil
  with assms(3) show ?thesis by simp
next
  case (Cons a w')
  have "suffix w' wA" "w' \<noteq> wA"
    unfolding Cons by (simp_all add: suffix_ConsI)
  with no_creation_aux [OF assms(1,2), where cs = cs] assms(4) show ?thesis
    unfolding Cons by auto
qed

lemma boundary_re_sub:
  assumes "\<And>d ds. acc_lit wB (d # ds) \<Longrightarrow> not_sp_nl d" and "boundary rest"
  shows "boundary (re_sub (pat_assign wB) rB rest)"
proof (cases rest)
  case Nil
  then show ?thesis by (simp add: re_sub_assign_Nil boundary_Nil)
next
  case (Cons c cs)
  with assms(2) have "\<not> not_sp_nl c" by (simp add: boundary_Cons)
  with assms(1) have "\<not> acc_lit wB (c # cs)" by blast
  from re_sub_assign_skip [OF this] \<open>\<not> not_sp_nl c\<close> show ?thesis
    unfolding Cons by (simp add: boundary_Cons)
qed

lemma re_sub_copy:
  assumes "\<And>v y. suffix v u \<Longrightarrow> v \<noteq> [] \<Longrightarrow> \<not> acc_lit wB (v @ y)"
  shows "re_sub (pat_assign wB) rB (u @ rest) = u @ re_sub (pat_assign wB) rB rest"
  using assms
proof (induction u)
  case Nil
  then show ?case by simp
next
  case (Cons a u)
  have "\<not> acc_lit wB ((a # u) @ rest)"
    using Cons.prems [of "a # u" rest] by simp
  then have "re_sub (pat_assign wB) rB ((a # u) @ rest) = a # re_sub (pat_assign wB) rB (u @ rest)"
    by (simp add: re_sub_assign_skip)
  moreover have "re_sub (pat_assign wB) rB (u @ rest) = u @ re_sub (pat_assign wB) rB rest"
  proof (rule Cons.IH)
    fix v y
    assume "suffix v u" "v \<noteq> []"
    then show "\<not> acc_lit wB (v @ y)"
      using Cons.prems [of v y] by (simp add: suffix_ConsI)
  qed
  ultimately show ?case by simp
qed

subsection \<open>Masked texts\<close>

lemma masked_Nil: "masked w []"
  by (simp add: masked_def acc_lit_Nil)

lemma masked_ConsI:
  assumes "acc_lit w (c # u) \<Longrightarrow> \<exists>rest. c # u = w @ ''=***'' @ rest \<and> boundary rest"
    and "masked w u"
  shows "masked w (c # u)"
  unfolding masked_def
proof (intro allI impI)
  fix i
  assume a: "acc_lit w (drop i (c # u))"
  show "\<exists>rest. drop i (c # u) = w @ ''=***'' @ rest \<and> boundary rest"
  proof (cases i)
    case 0
    with a assms(1) show ?thesis by simp
  next
    case (Suc j)
    with a assms(2) show ?thesis by (simp add: masked_def)
  qed
qed

lemma masked_drop: "masked w u \<Longrightarrow> masked w (drop n u)"
  unfolding masked_def by (auto simp: add.commute)

lemma masked_head:
  "masked w u \<Longrightarrow> acc_lit w u \<Longrightarrow> \<exists>rest. u = w @ ''=***'' @ rest \<and> boundary rest"
  unfolding masked_def by (metis drop0)

lemma masked_appendI:
  assumes "\<And>v. suffix v r \<Longrightarrow> v \<noteq> [] \<Longrightarrow> acc_lit w (v @ u) \<Longrightarrow>
             \<exists>rest. v @ u = w @ ''=***'' @ rest \<and> boundary rest"
    and "masked w u"
  shows "masked w (r @ u)"
  using assms(1)
proof (induction r)
  case Nil
  with assms(2) show ?case by simp
next
  case (Cons a r)
  have "masked w (r @ u)"
  proof (rule Cons.IH)
    fix v
    assume "suffix v r" "v \<noteq> []" "acc_lit w (v @ u)"
    then show "\<exists>rest. v @ u = w @ ''=***'' @ rest \<and> boundary rest"
      using Cons.prems [of v] by (simp add: suffix_ConsI)
  qed
  moreover have "acc_lit w (a # r @ u) \<Longrightarrow> \<exists>rest. a # r @ u = w @ ''=***'' @ rest \<and> boundary rest"
    using Cons.prems [of "a # r"] by simp
  ultimately show ?case
    using masked_ConsI [of w a "r @ u"] by simp
qed

text \<open>After its own substitution, a rule matches at its placeholders only.\<close>

lemma masked_own:
  fixes w :: string
  assumes H2: "\<And>v y. suffix v w \<Longrightarrow> v \<noteq> w \<Longrightarrow> \<not> acc_lit v ((w @ ''=***'') @ y)"
    and H3: "\<And>d ds. acc_lit w (d # ds) \<Longrightarrow> not_sp_nl d"
    and HF3: "\<And>u y. suffix u (w @ ''=***'') \<Longrightarrow> u \<noteq> [] \<Longrightarrow> u \<noteq> w @ ''=***'' \<Longrightarrow> \<not> acc_lit w (u @ y)"
    and ne: "w \<noteq> []"
  shows "masked w (re_sub (pat_assign w) (w @ ''=***'') x)"
proof (induction x rule: length_induct)
  case (1 x)
  let ?r = "w @ ''=***''"
  let ?S = "re_sub (pat_assign w) ?r"
  show ?case
  proof (cases "acc_lit w x")
    case True
    then obtain n where n: "0 < n" "n \<le> length x" "boundary (drop n x)" "?S x = ?r @ ?S (drop n x)"
      by (rule re_sub_assign_hit)
    from True have "x \<noteq> []"
      by (auto simp: acc_lit_Nil)
    with n(1) have "length (drop n x) < length x"
      by simp
    with 1 have m: "masked w (?S (drop n x))"
      by blast
    have b: "boundary (?S (drop n x))"
      using H3 n(3) by (rule boundary_re_sub)
    have "masked w (?r @ ?S (drop n x))"
    proof (rule masked_appendI [OF _ m])
      fix v
      assume v: "suffix v ?r" "v \<noteq> []" "acc_lit w (v @ ?S (drop n x))"
      with HF3 [of v "?S (drop n x)"] have "v = ?r"
        by blast
      with b show "\<exists>rest. v @ ?S (drop n x) = w @ ''=***'' @ rest \<and> boundary rest"
        by simp
    qed
    then show ?thesis
      unfolding n(4) .
  next
    case False
    show ?thesis
    proof (cases x)
      case Nil
      then show ?thesis by (simp add: re_sub_assign_Nil masked_Nil)
    next
      case (Cons c cs)
      from False have S: "?S x = c # ?S cs"
        unfolding Cons by (rule re_sub_assign_skip)
      from 1 Cons have m: "masked w (?S cs)"
        by simp
      have "\<not> acc_lit w (c # ?S cs)"
      proof
        assume "acc_lit w (c # ?S cs)"
        with H2 H3 ne have "acc_lit w (c # cs)"
          by (rule no_creation)
        with False Cons show False by simp
      qed
      then have "masked w (c # ?S cs)"
        using m by (intro masked_ConsI) auto
      then show ?thesis
        unfolding S .
    qed
  qed
qed

text \<open>A later rule keeps what an earlier rule has masked.\<close>

lemma masked_preserved:
  fixes wA wB rB :: string
  assumes H2: "\<And>v y. suffix v wA \<Longrightarrow> v \<noteq> wA \<Longrightarrow> \<not> acc_lit v (rB @ y)"
    and H3: "\<And>d ds. acc_lit wB (d # ds) \<Longrightarrow> not_sp_nl d"
    and HF3: "\<And>u y. suffix u rB \<Longrightarrow> u \<noteq> [] \<Longrightarrow> \<not> acc_lit wA (u @ y)"
    and HF4: "\<And>u y. suffix u (wA @ ''=***'') \<Longrightarrow> u \<noteq> [] \<Longrightarrow> \<not> acc_lit wB (u @ y)"
    and ne: "wA \<noteq> []"
  shows "masked wA x \<Longrightarrow> masked wA (re_sub (pat_assign wB) rB x)"
proof (induction x rule: length_induct)
  case (1 x)
  let ?S = "re_sub (pat_assign wB) rB"
  note mx = \<open>masked wA x\<close>
  show ?case
  proof (cases "acc_lit wB x")
    case True
    then obtain n where n: "0 < n" "n \<le> length x" "boundary (drop n x)" "?S x = rB @ ?S (drop n x)"
      by (rule re_sub_assign_hit)
    from True have "x \<noteq> []"
      by (auto simp: acc_lit_Nil)
    with n(1) have "length (drop n x) < length x"
      by simp
    moreover from mx have "masked wA (drop n x)"
      by (rule masked_drop)
    ultimately have m: "masked wA (?S (drop n x))"
      using 1 by blast
    have "masked wA (rB @ ?S (drop n x))"
    proof (rule masked_appendI [OF _ m])
      fix v
      assume "suffix v rB" "v \<noteq> []" "acc_lit wA (v @ ?S (drop n x))"
      with HF3 [of v "?S (drop n x)"] show "\<exists>rest. v @ ?S (drop n x) = wA @ ''=***'' @ rest \<and> boundary rest"
        by blast
    qed
    then show ?thesis
      unfolding n(4) .
  next
    case False
    show ?thesis
    proof (cases x)
      case Nil
      then show ?thesis by (simp add: re_sub_assign_Nil masked_Nil)
    next
      case (Cons c cs)
      from False have S: "?S x = c # ?S cs"
        unfolding Cons by (rule re_sub_assign_skip)
      from mx have "masked wA cs"
        unfolding Cons using masked_drop [of wA "c # cs" 1] by simp
      with 1 Cons have m: "masked wA (?S cs)"
        by simp
      have "\<exists>rest. c # ?S cs = wA @ ''=***'' @ rest \<and> boundary rest" if a: "acc_lit wA (c # ?S cs)"
      proof -
        from H2 H3 ne a have "acc_lit wA (c # cs)"
          by (rule no_creation)
        with mx Cons obtain rest where rest: "x = wA @ ''=***'' @ rest" "boundary rest"
          using masked_head [of wA x] by auto
        have "?S ((wA @ ''=***'') @ rest) = (wA @ ''=***'') @ ?S rest"
          using HF4 by (rule re_sub_copy)
        with rest(1) S have "c # ?S cs = wA @ ''=***'' @ ?S rest"
          by simp
        moreover have "boundary (?S rest)"
          using H3 rest(2) by (rule boundary_re_sub)
        ultimately show ?thesis by blast
      qed
      then have "masked wA (c # ?S cs)"
        using m by (intro masked_ConsI) auto
      then show ?thesis
        unfolding S .
    qed
  qed
qed

subsection \<open>The two keys\<close>

lemma lower_c_lits:
  "lower_c CHR ''p'' = CHR ''p''" "lower_c CHR ''a'' = CHR ''a''" "lower_c CHR ''s'' = CHR ''s''"
  "lower_c CHR ''w'' = CHR ''w''" "lower_c CHR ''o'' = CHR ''o''" "lower_c CHR ''r'' = CHR ''r''"
  "lower_c CHR ''d'' = CHR ''d''" "lower_c CHR ''e'' = CHR ''e''" "lower_c CHR ''c'' = CHR ''c''"
  "lower_c CHR ''t'' = CHR ''t''" "lower_c CHR ''='' = CHR ''=''" "lower_c CHR ''*'' = CHR ''*''"
  "lower_c CHR '' '' = CHR '' ''" "lower_c CHR 0x0A = CHR 0x0A"
  by (simp_all add: lower_c_def upper_AZ_def lower_az_def)

lemma not_space_lits: "\<not> is_space CHR ''p''" "\<not> is_space CHR ''s''"
  by (simp_all add: is_space_def py_whitespace_def)

lemmas ci_eval = ci_def lower_c_lits

lemma password_H3: "acc_lit ''password'' (d # ds) \<Longrightarrow> not_sp_nl d"
  by (auto simp: not_sp_nl_def ci_eval)

lemma secret_H3: "acc_lit ''secret'' (d # ds) \<Longrightarrow> not_sp_nl d"
  by (auto simp: not_sp_nl_def ci_eval)

lemma password_own_H2:
  "suffix v ''password'' \<Longrightarrow> v \<noteq> ''password'' \<Longrightarrow> \<not> acc_lit v ((''password'' @ ''=***'') @ y)"
  by (auto simp: suffix_Cons ci_eval not_space_lits)

lemma secret_own_H2:
  "suffix v ''secret'' \<Longrightarrow> v \<noteq> ''secret'' \<Longrightarrow> \<not> acc_lit v ((''secret'' @ ''=***'') @ y)"
  by (auto simp: suffix_Cons ci_eval not_space_lits)

lemma password_own_HF3:
  "suffix u (''password'' @ ''=***'') \<Longrightarrow> u \<noteq> [] \<Longrightarrow> u \<noteq> ''password'' @ ''=***'' \<Longrightarrow>
     \<not> acc_lit ''password'' (u @ y)"
  by (auto simp: suffix_Cons ci_eval)

lemma secret_own_HF3:
  "suffix u (''secret'' @ ''=***'') \<Longrightarrow> u \<noteq> [] \<Longrightarrow> u \<noteq> ''secret'' @ ''=***'' \<Longrightarrow>
     \<not> acc_lit ''secret'' (u @ y)"
  by (auto simp: suffix_Cons ci_eval)

lemma password_secret_H2:
  "suffix v ''password'' \<Longrightarrow> v \<noteq> ''password'' \<Longrightarrow> \<not> acc_lit v (''secret=***'' @ y)"
  by (auto simp: suffix_Cons ci_eval not_space_lits)

lemma password_secret_HF3:
  "suffix u ''secret=***'' \<Longrightarrow> u \<noteq> [] \<Longrightarrow> \<not> acc_lit ''password'' (u @ y)"
  by (auto simp: suffix_Cons ci_eval)

lemma password_secret_HF4:
  "suffix u (''password'' @ ''=***'') \<Longrightarrow> u \<noteq> [] \<Longrightarrow> \<not> acc_lit ''secret'' (u @ y)"
  by (auto simp: suffix_Cons ci_eval)

lemma masked_password_sub: "masked ''password'' (re_sub pat_password ''password=***'' x)"
proof -
  have "masked ''password'' (re_sub (pat_assign ''password'') (''password'' @ ''=***'') x)"
    by (rule masked_own)
       (erule (1) password_own_H2, erule password_H3, erule (2) password_own_HF3, simp)
  then show ?thesis by (simp add: pat_password_def)
qed

lemma masked_secret_sub: "masked ''secret'' (re_sub pat_secret ''secret=***'' x)"
proof -
  have "masked ''secret'' (re_sub (pat_assign ''secret'') (''secret'' @ ''=***'') x)"
    by (rule masked_own)
       (erule (1) secret_own_H2, erule secret_H3, erule (2) secret_own_HF3, simp)
  then show ?thesis by (simp add: pat_secret_def)
qed

lemma masked_password_kept:
  assumes "masked ''password'' x"
  shows "masked ''password'' (re_sub pat_secret ''secret=***'' x)"
proof -
  have "masked ''password'' (re_sub (pat_assign ''secret'') ''secret=***'' x)"
    using assms
    by (rule masked_preserved [rotated -1])
       (erule (1) password_secret_H2, erule secret_H3, erule (1) password_secret_HF3,
        erule (1) password_secret_HF4, simp)
  then show ?thesis by (simp add: pat_secret_def)
qed

lemma redact_secrets_unfold:
  "redact_secrets t =
     re_sub pat_secret ''secret=***''
       (re_sub pat_password ''password=***''
          (re_sub pat_bearer ''authorization: Bearer ***''
             (re_sub pat_api ''api_key=***''
                (re_sub pat_aws ''aws_secret_access_key=***'' t))))"
  by (simp add: redact_secrets_def SECRET_PATTERNS_def)

lemma masked_password_redact: "masked ''password'' (redact_secrets t)"
  unfolding redact_secrets_unfold by (intro masked_password_kept masked_password_sub)

lemma masked_secret_redact: "masked ''secret'' (redact_secrets t)"
  unfolding redact_secrets_unfold by (rule masked_secret_sub)

lemma masked_match:
  assumes "masked w u" and "ends (pat_assign w) (drop i u) \<noteq> []"
  shows "match_here (pat_assign w) (drop i u) = Some (length w + 4)"
    and "take (length w + 4) (drop i u) = w @ ''=***''"
proof -
  from assms obtain rest where r: "drop i u = w @ ''=***'' @ rest" "boundary rest"
    unfolding masked_def ends_pat_assign by blast
  from match_placeholder [OF r(2), of w] show "match_here (pat_assign w) (drop i u) = Some (length w + 4)"
    unfolding r(1) .
  show "take (length w + 4) (drop i u) = w @ ''=***''"
    unfolding r(1) by simp
qed

subsection \<open>Texts that a rule leaves as they are\<close>

lemma re_sub_no_match:
  "(\<And>i. ends p (drop i u) = []) \<Longrightarrow> re_sub p r u = u"
proof (induction u)
  case Nil
  from Nil [of 0] show ?case by (simp add: re_sub_Nil match_here_None)
next
  case (Cons c cs)
  from Cons.prems [of 0] have "re_sub p r (c # cs) = c # re_sub p r cs"
    by (simp add: re_sub_skip match_here_None)
  moreover have "re_sub p r cs = cs"
  proof (rule Cons.IH)
    fix i
    from Cons.prems [of "Suc i"] show "ends p (drop i cs) = []" by simp
  qed
  ultimately show ?case by simp
qed

lemma contains_match_iff: "contains_match p u \<longleftrightarrow> (\<exists>i. ends p (drop i u) \<noteq> [])"
proof
  assume "contains_match p u"
  then show "\<exists>i. ends p (drop i u) \<noteq> []"
    unfolding contains_match_def list_ex_iff by blast
next
  assume "\<exists>i. ends p (drop i u) \<noteq> []"
  then obtain i where i: "ends p (drop i u) \<noteq> []" by blast
  show "contains_match p u"
  proof (cases "i \<le> length u")
    case True
    then have "i \<in> set [0 ..< Suc (length u)]" by auto
    with i show ?thesis unfolding contains_match_def list_ex_iff by blast
  next
    case False
    with i have "ends p (drop (length u) u) \<noteq> []" by simp
    then have "\<exists>k \<in> set [0 ..< Suc (length u)]. ends p (drop k u) \<noteq> []"
      by (intro bexI [of _ "length u"]) simp_all
    then show ?thesis by (simp add: contains_match_def list_ex_iff)
  qed
qed

lemma re_sub_clean: "\<not> contains_match p u \<Longrightarrow> re_sub p r u = u"
  by (rule re_sub_no_match) (simp add: contains_match_iff)

lemma re_sub_masked: "masked w u \<Longrightarrow> re_sub (pat_assign w) (w @ ''=***'') u = u"
proof (induction u rule: length_induct)
  case (1 u)
  let ?S = "re_sub (pat_assign w) (w @ ''=***'')"
  note mu = \<open>masked w u\<close>
  show ?case
  proof (cases "acc_lit w u")
    case True
    with mu obtain rest where r: "u = w @ ''=***'' @ rest" "boundary rest"
      using masked_head [of w u] by blast
    from True obtain c cs where u: "u = c # cs"
      by (cases u) (auto simp: acc_lit_Nil)
    from match_placeholder [OF r(2), of w] have m: "match_here (pat_assign w) (c # cs) = Some (length w + 4)"
      using r(1) u by simp
    have "?S (c # cs) = (w @ ''=***'') @ ?S (drop (length w + 4) (c # cs))"
      using m by (rule re_sub_hit) simp
    moreover have "drop (length w + 4) (c # cs) = rest"
      using r(1) u by simp
    moreover have "?S rest = rest"
    proof -
      have "length rest < length u" using r(1) by simp
      moreover have "masked w rest"
        using masked_drop [OF mu, of "length w + 4"] r(1) by simp
      ultimately show ?thesis using 1 by blast
    qed
    ultimately show ?thesis
      using r(1) u by simp
  next
    case False
    show ?thesis
    proof (cases u)
      case Nil
      then show ?thesis by (simp add: re_sub_assign_Nil)
    next
      case (Cons c cs)
      from mu have "masked w cs"
        unfolding Cons using masked_drop [of w "c # cs" 1] by simp
      with 1 Cons have "?S cs = cs" by simp
      with False show ?thesis
        unfolding Cons by (simp add: re_sub_assign_skip)
    qed
  qed
qed

lemma redact_secrets_fixed:
  assumes "\<not> contains_match pat_aws u" and "\<not> contains_match pat_api u"
    and "\<not> contains_match pat_bearer u"
    and "masked ''password'' u" and "masked ''secret'' u"
  shows "redact_secrets u = u"
proof -
  have "re_sub pat_password ''password=***'' u = u"
    using re_sub_masked [OF assms(4)] by (simp add: pat_password_def)
  moreover have "re_sub pat_secret ''secret=***'' u = u"
    using re_sub_masked [OF assms(5)] by (simp add: pat_secret_def)
  ultimately show ?thesis
    unfolding redact_secrets_unfold by (simp add: re_sub_clean assms(1-3))
qed

subsection \<open>The bearer pattern and its acceptor\<close>

lemma acc_tok_takeWhile: "acc_tok k s \<longleftrightarrow> k \<le> length (takeWhile bearer_tok s)"
  by (induction k s rule: acc_tok.induct) auto

lemma ends_last_rep: "ends [Rep P n None] s \<noteq> [] \<longleftrightarrow> n \<le> length (takeWhile P s)"
  by (auto simp: ends_nonempty_Cons run_unbounded)

lemma ends_plus_Cons:
  "ends (Rep P (Suc 0) None # as) s \<noteq> [] \<longleftrightarrow>
     (\<exists>c cs. s = c # cs \<and> P c \<and> ends (Rep P 0 None # as) cs \<noteq> [])"
proof (cases s)
  case Nil
  then show ?thesis by (simp add: ends_nonempty_Cons run_one_Nil)
next
  case (Cons c cs)
  show ?thesis
  proof (cases "P c")
    case False
    then show ?thesis unfolding Cons by (simp add: ends_nonempty_Cons run_unbounded)
  next
    case True
    have "(\<exists>k. Suc 0 \<le> k \<and> k \<le> Suc (length (takeWhile P cs)) \<and> ends as (drop k (c # cs)) \<noteq> [])
          \<longleftrightarrow> (\<exists>k. k \<le> length (takeWhile P cs) \<and> ends as (drop k cs) \<noteq> [])"
      (is "?L \<longleftrightarrow> ?R")
    proof
      assume ?L
      then obtain k where k: "Suc 0 \<le> k" "k \<le> Suc (length (takeWhile P cs))"
        "ends as (drop k (c # cs)) \<noteq> []" by blast
      then obtain k' where "k = Suc k'" by (cases k) auto
      with k show ?R by auto
    next
      assume ?R
      then obtain k where "k \<le> length (takeWhile P cs)" "ends as (drop k cs) \<noteq> []" by blast
      then have "Suc 0 \<le> Suc k \<and> Suc k \<le> Suc (length (takeWhile P cs))
                 \<and> ends as (drop (Suc k) (c # cs)) \<noteq> []" by simp
      then show ?L by blast
    qed
    with True show ?thesis unfolding Cons by (simp add: ends_nonempty_Cons run_unbounded)
  qed
qed

lemma acc_wt_ends: "ends [ws_star, Rep bearer_tok 16 None] s \<noteq> [] \<longleftrightarrow> acc_wt s"
proof (induction s)
  case Nil
  then show ?case by (simp add: ws_star_def ends_star_Nil ends_last_rep)
next
  case (Cons c cs)
  then show ?case unfolding ws_star_def
    by (simp add: ends_star_Cons ends_last_rep acc_tok_takeWhile del: acc_tok.simps)
qed

lemma acc_b2_Nil_ends: "ends [ws_plus, Rep bearer_tok 16 None] s \<noteq> [] \<longleftrightarrow> acc_b2 [] s"
  using acc_wt_ends by (cases s) (auto simp: ws_plus_def ws_star_def ends_plus_Cons)

lemma acc_b2_prefix: "acc_b2 v s \<longleftrightarrow> ci_prefix v s \<and> acc_b2 [] (drop (length v) s)"
  by (induction v s rule: acc_b2.induct) auto

lemma acc_b2_ends:
  "ends (lit_ci v @ [ws_plus, Rep bearer_tok 16 None]) s \<noteq> [] \<longleftrightarrow> acc_b2 v s"
  by (simp only: ends_lit_ci acc_b2_prefix [of v] acc_b2_Nil_ends [symmetric] map_is_Nil_conv
        split: if_splits) auto

lemma acc_wb_ends:
  "ends (ws_star # lit_ci ''Bearer'' @ [ws_plus, Rep bearer_tok 16 None]) s \<noteq> [] \<longleftrightarrow> acc_wb s"
proof (induction s)
  case Nil
  have "\<not> acc_b2 ''Bearer'' []" by simp
  then show ?case unfolding ws_star_def ends_star_Nil acc_b2_ends by simp
next
  case (Cons c cs)
  then show ?case unfolding ws_star_def ends_star_Cons acc_b2_ends by simp
qed

lemma acc_b1_prefix: "acc_b1 v s \<longleftrightarrow> ci_prefix v s \<and> acc_wb (drop (length v) s)"
  by (induction v s rule: acc_b1.induct) auto

lemma pat_bearer_split:
  "pat_bearer = lit_ci ''authorization:''
                @ (ws_star # lit_ci ''Bearer'' @ [ws_plus, Rep bearer_tok 16 None])"
  by (simp add: pat_bearer_def bearer_tok_def [abs_def])

lemma ends_pat_bearer: "ends pat_bearer s \<noteq> [] \<longleftrightarrow> acc_b1 ''authorization:'' s"
  unfolding pat_bearer_split
  by (simp only: ends_lit_ci acc_b1_prefix [of "''authorization:''"] acc_wb_ends [symmetric]
        map_is_Nil_conv split: if_splits) auto

subsection \<open>No substitution creates a match of the bearer rule\<close>

lemma match_here_Nil_None:
  assumes "\<And>cs n. match_here pB cs = Some n \<Longrightarrow> 0 < n"
  shows "match_here pB [] = None"
proof (cases "match_here pB []")
  case None
  then show ?thesis .
next
  case (Some n)
  then have "n \<in> set (ends pB [])"
    by (auto simp: match_here_Some)
  from ends_le_length [OF this] assms [OF Some] show ?thesis by simp
qed

lemma acc_tok_16: "acc_tok 16 (c # cs) \<longleftrightarrow> bearer_tok c \<and> acc_tok 15 cs"
  by (simp add: eval_nat_numeral)

lemma acc_wt_nonspace: "s \<noteq> [] \<Longrightarrow> \<not> is_space (hd s) \<Longrightarrow> acc_wt s \<longleftrightarrow> acc_tok 16 s"
  by (cases s) (simp_all del: acc_tok.simps)

lemma acc_wb_nonspace: "s \<noteq> [] \<Longrightarrow> \<not> is_space (hd s) \<Longrightarrow> acc_wb s \<longleftrightarrow> acc_b2 ''Bearer'' s"
  by (cases s) (simp_all del: acc_b2.simps)

lemma bearer_no_creation_aux:
  fixes pB :: "atom list" and rB :: string
  assumes A1: "\<And>cs k y. ends pB cs \<noteq> [] \<Longrightarrow> acc_tok k (rB @ y) \<Longrightarrow> acc_tok k cs"
    and A2: "rB \<noteq> []" "\<not> is_space (hd rB)"
    and A3: "\<And>v y. suffix v ''Bearer'' \<Longrightarrow> \<not> acc_b2 v (rB @ y)"
    and A4: "\<And>v y. suffix v ''authorization:'' \<Longrightarrow> v \<noteq> ''authorization:'' \<Longrightarrow> \<not> acc_b1 v (rB @ y)"
    and A5: "\<And>cs n. match_here pB cs = Some n \<Longrightarrow> 0 < n"
  shows "(\<forall>k. acc_tok k (re_sub pB rB cs) \<longrightarrow> acc_tok k cs)
       \<and> (acc_wt (re_sub pB rB cs) \<longrightarrow> acc_wt cs)
       \<and> (\<forall>v. suffix v ''Bearer'' \<longrightarrow> acc_b2 v (re_sub pB rB cs) \<longrightarrow> acc_b2 v cs)
       \<and> (acc_wb (re_sub pB rB cs) \<longrightarrow> acc_wb cs)
       \<and> (\<forall>v. suffix v ''authorization:'' \<and> v \<noteq> ''authorization:'' \<longrightarrow>
              acc_b1 v (re_sub pB rB cs) \<longrightarrow> acc_b1 v cs)"
proof (induction cs rule: length_induct)
  case (1 cs)
  let ?S = "re_sub pB rB"
  have ns: "rB @ y \<noteq> []" "\<not> is_space (hd (rB @ y))" for y
    using A2 by simp_all
  show ?case
  proof (cases cs)
    case Nil
    then show ?thesis
      by (simp add: re_sub_Nil match_here_Nil_None [OF A5])
  next
    case (Cons d ds)
    show ?thesis
    proof (cases "match_here pB cs")
      case (Some n)
      from A5 [OF Some] have "0 < n" .
      with Some have S: "?S cs = rB @ ?S (drop n cs)"
        unfolding Cons by (rule re_sub_hit)
      from Some have e: "ends pB cs \<noteq> []"
        by (auto simp: match_here_Some)
      have tok: "acc_tok k (?S cs) \<longrightarrow> acc_tok k cs" for k
        unfolding S using A1 [OF e] by blast
      have "acc_wt (?S cs) \<longrightarrow> acc_tok 16 (?S cs)"
        unfolding S using acc_wt_nonspace [OF ns] by simp
      with tok [of 16] have wt: "acc_wt (?S cs) \<longrightarrow> acc_wt cs"
        unfolding Cons by auto
      have b2: "\<not> acc_b2 v (?S cs)" if "suffix v ''Bearer''" for v
        unfolding S using A3 [OF that] by blast
      have "suffix ''Bearer'' ''Bearer''" by simp
      from b2 [OF this] have wb: "\<not> acc_wb (?S cs)"
        unfolding S using acc_wb_nonspace [OF ns] by simp
      have b1: "\<not> acc_b1 v (?S cs)" if "suffix v ''authorization:''" "v \<noteq> ''authorization:''" for v
        unfolding S using A4 [OF that] by blast
      from tok wt b2 wb b1 show ?thesis by blast
    next
      case None
      then have S: "?S (d # ds) = d # ?S ds"
        unfolding Cons by (rule re_sub_skip)
      from 1 Cons have IHt: "\<And>k. acc_tok k (?S ds) \<Longrightarrow> acc_tok k ds"
        and IHw: "acc_wt (?S ds) \<Longrightarrow> acc_wt ds"
        and IH2: "\<And>v. suffix v ''Bearer'' \<Longrightarrow> acc_b2 v (?S ds) \<Longrightarrow> acc_b2 v ds"
        and IHb: "acc_wb (?S ds) \<Longrightarrow> acc_wb ds"
        and IH1: "\<And>v. suffix v ''authorization:'' \<Longrightarrow> v \<noteq> ''authorization:'' \<Longrightarrow>
                    acc_b1 v (?S ds) \<Longrightarrow> acc_b1 v ds"
        by auto
      have tok: "acc_tok k (?S (d # ds)) \<longrightarrow> acc_tok k (d # ds)" for k
        using IHt by (cases k) (auto simp: S)
      have wt: "acc_wt (?S (d # ds)) \<longrightarrow> acc_wt (d # ds)"
        using tok [of 16] IHw by (auto simp: S simp del: acc_tok.simps)
      have b2: "acc_b2 v (?S (d # ds)) \<longrightarrow> acc_b2 v (d # ds)" if v: "suffix v ''Bearer''" for v
      proof (cases v)
        case Nil
        with IHw show ?thesis by (auto simp: S)
      next
        case (Cons a v')
        from v have "suffix v' ''Bearer''"
          unfolding Cons by (rule suffix_ConsD)
        from IH2 [OF this] show ?thesis
          unfolding Cons by (auto simp: S)
      qed
      have "suffix ''Bearer'' ''Bearer''" by simp
      from b2 [OF this] IHb have wb: "acc_wb (?S (d # ds)) \<longrightarrow> acc_wb (d # ds)"
        by (auto simp: S simp del: acc_b2.simps)
      have b1: "acc_b1 v (?S (d # ds)) \<longrightarrow> acc_b1 v (d # ds)"
        if v: "suffix v ''authorization:''" "v \<noteq> ''authorization:''" for v
      proof (cases v)
        case Nil
        with wb show ?thesis by simp
      next
        case (Cons a v')
        from v(1) have s: "suffix v' ''authorization:''"
          unfolding Cons by (rule suffix_ConsD)
        from v(1) have "length v \<le> length ''authorization:''"
          by (rule suffix_length_le)
        then have "v' \<noteq> ''authorization:''"
          unfolding Cons by auto
        from IH1 [OF s this] show ?thesis
          unfolding Cons by (auto simp: S)
      qed
      from tok wt b2 wb b1 show ?thesis
        unfolding Cons by blast
    qed
  qed
qed

lemma bearer_no_creation:
  fixes pB :: "atom list" and rB :: string
  assumes "\<And>cs k y. ends pB cs \<noteq> [] \<Longrightarrow> acc_tok k (rB @ y) \<Longrightarrow> acc_tok k cs"
    and "rB \<noteq> []" "\<not> is_space (hd rB)"
    and "\<And>v y. suffix v ''Bearer'' \<Longrightarrow> \<not> acc_b2 v (rB @ y)"
    and "\<And>v y. suffix v ''authorization:'' \<Longrightarrow> v \<noteq> ''authorization:'' \<Longrightarrow> \<not> acc_b1 v (rB @ y)"
    and "\<And>cs n. match_here pB cs = Some n \<Longrightarrow> 0 < n"
    and "acc_b1 ''authorization:'' (c # re_sub pB rB cs)"
  shows "acc_b1 ''authorization:'' (c # cs)"
proof -
  have "suffix ''uthorization:'' ''authorization:''" "''uthorization:'' \<noteq> ''authorization:''"
    by (simp_all add: suffix_ConsI)
  with bearer_no_creation_aux [OF assms(1-6), where cs = cs] assms(7) show ?thesis
    by auto
qed

lemma clean_bearer_Nil: "clean_bearer []"
  by (simp add: clean_bearer_def)

lemma clean_bearer_ConsI:
  assumes "\<not> acc_b1 ''authorization:'' (c # u)" and "clean_bearer u"
  shows "clean_bearer (c # u)"
  unfolding clean_bearer_def
proof (intro allI)
  fix i
  show "\<not> acc_b1 ''authorization:'' (drop i (c # u))"
    using assms by (cases i) (simp_all add: clean_bearer_def)
qed

lemma clean_bearer_appendI:
  assumes "\<And>v. suffix v r \<Longrightarrow> v \<noteq> [] \<Longrightarrow> \<not> acc_b1 ''authorization:'' (v @ u)"
    and "clean_bearer u"
  shows "clean_bearer (r @ u)"
  using assms(1)
proof (induction r)
  case Nil
  with assms(2) show ?case by simp
next
  case (Cons a r)
  have "clean_bearer (r @ u)"
  proof (rule Cons.IH)
    fix v
    assume "suffix v r" "v \<noteq> []"
    then show "\<not> acc_b1 ''authorization:'' (v @ u)"
      using Cons.prems [of v] by (simp add: suffix_ConsI)
  qed
  moreover have "\<not> acc_b1 ''authorization:'' (a # r @ u)"
    using Cons.prems [of "a # r"] by simp
  ultimately show ?case
    using clean_bearer_ConsI [of a "r @ u"] by simp
qed

lemma clean_bearer_re_sub:
  fixes pB :: "atom list" and rB :: string
  assumes A1: "\<And>cs k y. ends pB cs \<noteq> [] \<Longrightarrow> acc_tok k (rB @ y) \<Longrightarrow> acc_tok k cs"
    and A2: "rB \<noteq> []" "\<not> is_space (hd rB)"
    and A3: "\<And>v y. suffix v ''Bearer'' \<Longrightarrow> \<not> acc_b2 v (rB @ y)"
    and A4: "\<And>v y. suffix v ''authorization:'' \<Longrightarrow> v \<noteq> ''authorization:'' \<Longrightarrow> \<not> acc_b1 v (rB @ y)"
    and A5: "\<And>cs n. match_here pB cs = Some n \<Longrightarrow> 0 < n"
    and A6: "\<And>u y. suffix u rB \<Longrightarrow> u \<noteq> [] \<Longrightarrow> \<not> acc_b1 ''authorization:'' (u @ y)"
  shows "(\<And>i. ends pB (drop i x) = [] \<Longrightarrow> \<not> acc_b1 ''authorization:'' (drop i x)) \<Longrightarrow>
           clean_bearer (re_sub pB rB x)"
proof (induction x rule: length_induct)
  case (1 x)
  let ?S = "re_sub pB rB"
  note R = "1.prems"
  have Rdrop: "ends pB (drop i (drop n x)) = [] \<Longrightarrow> \<not> acc_b1 ''authorization:'' (drop i (drop n x))"
    for i n
    using R [of "i + n"] by (simp add: add.commute)
  show ?case
  proof (cases x)
    case Nil
    then show ?thesis
      by (simp add: re_sub_Nil match_here_Nil_None [OF A5] clean_bearer_Nil)
  next
    case (Cons c cs)
    show ?thesis
    proof (cases "match_here pB x")
      case (Some n)
      from A5 [OF Some] have n: "0 < n" .
      with Some have S: "?S x = rB @ ?S (drop n x)"
        unfolding Cons by (rule re_sub_hit)
      from n Cons have "length (drop n x) < length x"
        by simp
      with 1 Rdrop have "clean_bearer (?S (drop n x))"
        by blast
      with A6 have "clean_bearer (rB @ ?S (drop n x))"
        by (intro clean_bearer_appendI) auto
      then show ?thesis
        unfolding S .
    next
      case None
      then have S: "?S x = c # ?S cs"
        unfolding Cons by (rule re_sub_skip)
      from Rdrop [of _ 1] Cons have "\<And>i. ends pB (drop i cs) = [] \<Longrightarrow> \<not> acc_b1 ''authorization:'' (drop i cs)"
        by simp
      with 1 Cons have m: "clean_bearer (?S cs)"
        by simp
      have "\<not> acc_b1 ''authorization:'' (c # ?S cs)"
      proof
        assume "acc_b1 ''authorization:'' (c # ?S cs)"
        with A1 A2 A3 A4 A5 have "acc_b1 ''authorization:'' (c # cs)"
          by (rule bearer_no_creation)
        moreover from None have "ends pB (drop 0 x) = []"
          by (simp add: match_here_None)
        ultimately show False
          using R [of 0] Cons by simp
      qed
      with m have "clean_bearer (c # ?S cs)"
        by (intro clean_bearer_ConsI)
      then show ?thesis
        unfolding S .
    qed
  qed
qed

subsection \<open>The bearer rule against the three last replacements\<close>

lemma lower_c_lits2:
  "lower_c CHR ''u'' = CHR ''u''" "lower_c CHR ''h'' = CHR ''h''" "lower_c CHR ''i'' = CHR ''i''"
  "lower_c CHR ''z'' = CHR ''z''" "lower_c CHR ''n'' = CHR ''n''" "lower_c CHR '':'' = CHR '':''"
  "lower_c CHR ''B'' = CHR ''b''" "lower_c CHR ''b'' = CHR ''b''"
  by (simp_all add: lower_c_def upper_AZ_def lower_az_def)

lemma not_space_lits2: "\<not> is_space CHR ''a''" "\<not> is_space CHR ''B''" "is_space CHR '' ''"
  by (simp_all add: is_space_def py_whitespace_def)

lemma not_tok_lits: "\<not> bearer_tok CHR ''*''" "\<not> bearer_tok CHR '':''" "\<not> bearer_tok CHR ''=''"
  by (simp_all add: bearer_tok_def alnum_def one_of_def upper_AZ_def lower_az_def digit_09_def)

lemmas ci_eval2 = ci_def lower_c_lits lower_c_lits2

lemma upper_not_lower: "a \<in> set lower_az \<Longrightarrow> a \<notin> set upper_AZ"
  by (auto simp: lower_az_def upper_AZ_def)

lemma map_of_upper: "map_of (zip upper_AZ lower_az) c = Some l \<Longrightarrow> c \<in> set upper_AZ"
  by (auto dest!: map_of_SomeD set_zip_leftD)

lemma map_of_not_upper: "c \<notin> set upper_AZ \<Longrightarrow> map_of (zip upper_AZ lower_az) c = None"
  by (cases "map_of (zip upper_AZ lower_az) c") (auto dest: map_of_upper)

lemma ci_alnum:
  assumes "ci a c" and "a \<in> set lower_az"
  shows "alnum c"
proof (cases "map_of (zip upper_AZ lower_az) c")
  case (Some l)
  then have "c \<in> set upper_AZ" by (rule map_of_upper)
  then show ?thesis by (simp add: alnum_def)
next
  case None
  from assms(2) have "lower_c a = a"
    by (simp add: lower_c_def map_of_not_upper upper_not_lower)
  with assms(1) None have "c = a"
    by (simp add: ci_def lower_c_def)
  with assms(2) show ?thesis by (simp add: alnum_def)
qed

lemma ci_prefix_tok_run:
  "ci_prefix w cs \<Longrightarrow> set w \<subseteq> set lower_az \<Longrightarrow> length w \<le> length (takeWhile bearer_tok cs)"
proof (induction w cs rule: ci_prefix.induct)
  case (3 a w c cs)
  then have "alnum c" by (auto intro: ci_alnum)
  then have "bearer_tok c" by (simp add: bearer_tok_def)
  with 3 show ?case by simp
qed simp_all

lemma ci_prefix_append: "ci_prefix (w @ v) s \<Longrightarrow> ci_prefix w s"
  by (induction w s rule: ci_prefix.induct) auto

lemma tok_transfer:
  assumes "ci_prefix w cs" and "set w \<subseteq> set lower_az"
    and "acc_tok k (w @ z)" and "z = [] \<or> \<not> bearer_tok (hd z)"
  shows "acc_tok k cs"
proof -
  have "\<forall>a \<in> set w. bearer_tok a"
    using assms(2) by (auto simp: bearer_tok_def alnum_def)
  then have "takeWhile bearer_tok (w @ z) = w @ takeWhile bearer_tok z"
    by (simp add: takeWhile_append2)
  moreover have "takeWhile bearer_tok z = []"
    using assms(4) by (cases z) auto
  ultimately have "k \<le> length w"
    using assms(3) by (simp add: acc_tok_takeWhile)
  with ci_prefix_tok_run [OF assms(1,2)] show ?thesis
    by (simp add: acc_tok_takeWhile)
qed

lemma lower_words:
  "set ''authorization'' \<subseteq> set lower_az" "set ''password'' \<subseteq> set lower_az"
  "set ''secret'' \<subseteq> set lower_az"
  by (simp_all add: lower_az_def)

text \<open>The replacement of the bearer rule itself.\<close>

lemma bearer_A1:
  assumes "ends pat_bearer cs \<noteq> []" and "acc_tok k (''authorization: Bearer ***'' @ y)"
  shows "acc_tok k cs"
proof -
  from assms(1) have "ci_prefix (''authorization'' @ '':'') cs"
    by (simp add: ends_pat_bearer acc_b1_prefix)
  then have p: "ci_prefix ''authorization'' cs"
    by (rule ci_prefix_append)
  have a: "acc_tok k (''authorization'' @ ('': Bearer ***'' @ y))"
    using assms(2) by simp
  show ?thesis
    by (rule tok_transfer [OF p lower_words(1) a]) (simp add: not_tok_lits)
qed

lemma bearer_A3: "suffix v ''Bearer'' \<Longrightarrow> \<not> acc_b2 v (''authorization: Bearer ***'' @ y)"
  by (auto simp: suffix_Cons ci_eval2 not_space_lits2)

lemma bearer_A4:
  "suffix v ''authorization:'' \<Longrightarrow> v \<noteq> ''authorization:'' \<Longrightarrow>
     \<not> acc_b1 v (''authorization: Bearer ***'' @ y)"
  by (auto simp: suffix_Cons ci_eval2 not_space_lits2)

lemma bearer_A6:
  "suffix u ''authorization: Bearer ***'' \<Longrightarrow> u \<noteq> [] \<Longrightarrow> \<not> acc_b1 ''authorization:'' (u @ y)"
  by (auto simp: suffix_Cons ci_eval2 not_space_lits2 not_space_star acc_tok_16 not_tok_lits
           simp del: acc_tok.simps)

lemma bearer_A5: "match_here pat_bearer cs = Some n \<Longrightarrow> 0 < n"
proof -
  assume "match_here pat_bearer cs = Some n"
  then have "n \<in> set (ends pat_bearer cs)"
    by (auto simp: match_here_Some)
  moreover have "Rep bearer_tok 16 None \<in> set pat_bearer"
    by (simp add: pat_bearer_split)
  ultimately have "16 \<le> n"
    by (rule ends_lower_bound)
  then show "0 < n" by simp
qed

lemma clean_bearer_own: "clean_bearer (re_sub pat_bearer ''authorization: Bearer ***'' x)"
proof (rule clean_bearer_re_sub)
  show "\<And>cs k y. ends pat_bearer cs \<noteq> [] \<Longrightarrow> acc_tok k (''authorization: Bearer ***'' @ y) \<Longrightarrow> acc_tok k cs"
    by (rule bearer_A1)
  show "''authorization: Bearer ***'' \<noteq> []" "\<not> is_space (hd ''authorization: Bearer ***'')"
    by (simp_all add: not_space_lits2)
  show "\<And>v y. suffix v ''Bearer'' \<Longrightarrow> \<not> acc_b2 v (''authorization: Bearer ***'' @ y)"
    by (rule bearer_A3)
  show "\<And>v y. suffix v ''authorization:'' \<Longrightarrow> v \<noteq> ''authorization:'' \<Longrightarrow>
          \<not> acc_b1 v (''authorization: Bearer ***'' @ y)"
    by (rule bearer_A4)
  show "\<And>cs n. match_here pat_bearer cs = Some n \<Longrightarrow> 0 < n"
    by (rule bearer_A5)
  show "\<And>u y. suffix u ''authorization: Bearer ***'' \<Longrightarrow> u \<noteq> [] \<Longrightarrow>
          \<not> acc_b1 ''authorization:'' (u @ y)"
    by (rule bearer_A6)
  show "\<And>i. ends pat_bearer (drop i x) = [] \<Longrightarrow> \<not> acc_b1 ''authorization:'' (drop i x)"
    using ends_pat_bearer by blast
qed

text \<open>The replacements of the password and of the secret rule.\<close>

lemma assign_A1:
  assumes "ends (pat_assign w) cs \<noteq> []" and "acc_tok k ((w @ ''=***'') @ y)"
    and "set w \<subseteq> set lower_az"
  shows "acc_tok k cs"
proof -
  from assms(1) have p: "ci_prefix w cs"
    by (simp add: ends_pat_assign acc_lit_prefix)
  have a: "acc_tok k (w @ (''=***'' @ y))"
    using assms(2) by simp
  show ?thesis
    by (rule tok_transfer [OF p assms(3) a]) (simp add: not_tok_lits)
qed

lemma password_A3: "suffix v ''Bearer'' \<Longrightarrow> \<not> acc_b2 v (''password=***'' @ y)"
  by (auto simp: suffix_Cons ci_eval2 not_space_lits)

lemma secret_A3: "suffix v ''Bearer'' \<Longrightarrow> \<not> acc_b2 v (''secret=***'' @ y)"
  by (auto simp: suffix_Cons ci_eval2 not_space_lits)

lemma password_A4:
  "suffix v ''authorization:'' \<Longrightarrow> v \<noteq> ''authorization:'' \<Longrightarrow> \<not> acc_b1 v (''password=***'' @ y)"
  by (auto simp: suffix_Cons ci_eval2 not_space_lits)

lemma secret_A4:
  "suffix v ''authorization:'' \<Longrightarrow> v \<noteq> ''authorization:'' \<Longrightarrow> \<not> acc_b1 v (''secret=***'' @ y)"
  by (auto simp: suffix_Cons ci_eval2 not_space_lits)

lemma password_A6: "suffix u ''password=***'' \<Longrightarrow> u \<noteq> [] \<Longrightarrow> \<not> acc_b1 ''authorization:'' (u @ y)"
  by (auto simp: suffix_Cons ci_eval2)

lemma secret_A6: "suffix u ''secret=***'' \<Longrightarrow> u \<noteq> [] \<Longrightarrow> \<not> acc_b1 ''authorization:'' (u @ y)"
  by (auto simp: suffix_Cons ci_eval2)

lemma clean_bearer_password:
  assumes "clean_bearer x"
  shows "clean_bearer (re_sub pat_password ''password=***'' x)"
  unfolding pat_password_def
proof (rule clean_bearer_re_sub)
  show "\<And>cs k y. ends (pat_assign ''password'') cs \<noteq> [] \<Longrightarrow> acc_tok k (''password=***'' @ y) \<Longrightarrow>
          acc_tok k cs"
    using assign_A1 [of "''password''"] lower_words(2) by simp
  show "''password=***'' \<noteq> []" "\<not> is_space (hd ''password=***'')"
    by (simp_all add: not_space_lits)
  show "\<And>v y. suffix v ''Bearer'' \<Longrightarrow> \<not> acc_b2 v (''password=***'' @ y)"
    by (rule password_A3)
  show "\<And>v y. suffix v ''authorization:'' \<Longrightarrow> v \<noteq> ''authorization:'' \<Longrightarrow>
          \<not> acc_b1 v (''password=***'' @ y)"
    by (rule password_A4)
  show "\<And>cs n. match_here (pat_assign ''password'') cs = Some n \<Longrightarrow> 0 < n"
    by (rule match_assign_props(1))
  show "\<And>u y. suffix u ''password=***'' \<Longrightarrow> u \<noteq> [] \<Longrightarrow> \<not> acc_b1 ''authorization:'' (u @ y)"
    by (rule password_A6)
  show "\<And>i. ends (pat_assign ''password'') (drop i x) = [] \<Longrightarrow>
          \<not> acc_b1 ''authorization:'' (drop i x)"
    using assms by (simp add: clean_bearer_def)
qed

lemma clean_bearer_secret:
  assumes "clean_bearer x"
  shows "clean_bearer (re_sub pat_secret ''secret=***'' x)"
  unfolding pat_secret_def
proof (rule clean_bearer_re_sub)
  show "\<And>cs k y. ends (pat_assign ''secret'') cs \<noteq> [] \<Longrightarrow> acc_tok k (''secret=***'' @ y) \<Longrightarrow>
          acc_tok k cs"
    using assign_A1 [of "''secret''"] lower_words(3) by simp
  show "''secret=***'' \<noteq> []" "\<not> is_space (hd ''secret=***'')"
    by (simp_all add: not_space_lits)
  show "\<And>v y. suffix v ''Bearer'' \<Longrightarrow> \<not> acc_b2 v (''secret=***'' @ y)"
    by (rule secret_A3)
  show "\<And>v y. suffix v ''authorization:'' \<Longrightarrow> v \<noteq> ''authorization:'' \<Longrightarrow>
          \<not> acc_b1 v (''secret=***'' @ y)"
    by (rule secret_A4)
  show "\<And>cs n. match_here (pat_assign ''secret'') cs = Some n \<Longrightarrow> 0 < n"
    by (rule match_assign_props(1))
  show "\<And>u y. suffix u ''secret=***'' \<Longrightarrow> u \<noteq> [] \<Longrightarrow> \<not> acc_b1 ''authorization:'' (u @ y)"
    by (rule secret_A6)
  show "\<And>i. ends (pat_assign ''secret'') (drop i x) = [] \<Longrightarrow>
          \<not> acc_b1 ''authorization:'' (drop i x)"
    using assms by (simp add: clean_bearer_def)
qed

lemma clean_bearer_redact: "clean_bearer (redact_secrets t)"
  unfolding redact_secrets_unfold
  by (intro clean_bearer_secret clean_bearer_password clean_bearer_own)

lemma no_bearer_match: "\<not> contains_match pat_bearer (redact_secrets t)"
  using clean_bearer_redact [of t]
  by (simp add: contains_match_iff ends_pat_bearer clean_bearer_def)

subsection \<open>What one pass guarantees\<close>

text \<open>
  Claim C3, as amended. After one pass of \<open>redact_secrets\<close>, wherever the password rule or
  the secret rule matches in the output, the text it matches is the placeholder of the
  rule, \<^verbatim>\<open>password=***\<close> or \<^verbatim>\<open>secret=***\<close>: no other value stands behind these keys.
  The bearer rule matches nowhere in the output.
\<close>

theorem redact_secrets_masks_assignments:
  "(ends pat_password (drop i (redact_secrets t)) \<noteq> [] \<longrightarrow>
      match_here pat_password (drop i (redact_secrets t)) = Some 12
      \<and> take 12 (drop i (redact_secrets t)) = ''password=***'')
   \<and> (ends pat_secret (drop j (redact_secrets t)) \<noteq> [] \<longrightarrow>
      match_here pat_secret (drop j (redact_secrets t)) = Some 10
      \<and> take 10 (drop j (redact_secrets t)) = ''secret=***'')
   \<and> \<not> contains_match pat_bearer (redact_secrets t)"
  using masked_match [OF masked_password_redact, of i t] masked_match [OF masked_secret_redact, of j t]
    no_bearer_match [of t]
  by (simp add: pat_password_def pat_secret_def)

theorem redact_secrets_masks_assignments_witness:
  "ends pat_password (drop 0 (redact_secrets ''password=hunter2 secret = abc'')) \<noteq> []
   \<and> match_here pat_password (drop 0 (redact_secrets ''password=hunter2 secret = abc'')) = Some 12
   \<and> take 12 (drop 0 (redact_secrets ''password=hunter2 secret = abc'')) = ''password=***''
   \<and> ends pat_secret (drop 13 (redact_secrets ''password=hunter2 secret = abc'')) \<noteq> []
   \<and> match_here pat_secret (drop 13 (redact_secrets ''password=hunter2 secret = abc'')) = Some 10
   \<and> take 10 (drop 13 (redact_secrets ''password=hunter2 secret = abc'')) = ''secret=***''
   \<and> \<not> contains_match pat_bearer (redact_secrets ''password=hunter2 secret = abc'')"
proof -
  have h1: "ends pat_password (drop 0 (redact_secrets ''password=hunter2 secret = abc'')) \<noteq> []"
    by code_simp
  have h2: "ends pat_secret (drop 13 (redact_secrets ''password=hunter2 secret = abc'')) \<noteq> []"
    by code_simp
  from redact_secrets_masks_assignments [of 0 "''password=hunter2 secret = abc''" 13] h1 h2
  show ?thesis by blast
qed

text \<open>
  As first stated, the claim rules out every match in the output. The placeholder of the
  password rule matches the pattern of that rule, so the output of the smallest example
  already holds a match.
\<close>

theorem redact_secrets_output_matches_counterexample:
  "redact_secrets ''password=x'' = ''password=***''
   \<and> fst (SECRET_PATTERNS ! 3) = pat_password
   \<and> contains_match pat_password (redact_secrets ''password=x'')"
proof -
  have "redact_secrets ''password=x'' = ''password=***''"
    by code_simp
  moreover have "fst (SECRET_PATTERNS ! 3) = pat_password"
    by (simp add: SECRET_PATTERNS_def)
  moreover have "contains_match pat_password (redact_secrets ''password=x'')"
    by code_simp
  ultimately show ?thesis by blast
qed

text \<open>
  Claim C7, as amended. A second pass of \<open>redact_secrets\<close> changes nothing whenever the text
  left by the first pass holds no match of the aws and of the api-key rule.
\<close>

theorem redact_secrets_idempotent_on_clean_keys:
  assumes "\<not> contains_match pat_aws (redact_secrets t)"
    and "\<not> contains_match pat_api (redact_secrets t)"
  shows "redact_secrets (redact_secrets t) = redact_secrets t"
  using assms no_bearer_match masked_password_redact masked_secret_redact
  by (rule redact_secrets_fixed)

theorem redact_secrets_idempotent_on_clean_keys_witness:
  "\<not> contains_match pat_aws (redact_secrets ''password=hunter2 secret = abc'')
   \<and> \<not> contains_match pat_api (redact_secrets ''password=hunter2 secret = abc'')
   \<and> redact_secrets (redact_secrets ''password=hunter2 secret = abc'')
       = redact_secrets ''password=hunter2 secret = abc''"
proof -
  have h1: "\<not> contains_match pat_aws (redact_secrets ''password=hunter2 secret = abc'')"
    by code_simp
  have h2: "\<not> contains_match pat_api (redact_secrets ''password=hunter2 secret = abc'')"
    by code_simp
  from redact_secrets_idempotent_on_clean_keys [OF h1 h2] h1 h2 show ?thesis by blast
qed

text \<open>
  Without that condition the second pass can change the text. The api-key rule writes its
  key as \<^verbatim>\<open>api_key\<close>; where the text had \<^verbatim>\<open>apikey\<close> the key grows by one character, which
  can complete a run of sixteen in front of it.
\<close>

theorem redact_secrets_not_idempotent_counterexample:
  "redact_secrets ''api_key=XXXXXXXXXapikey=YYYYYYYYYYYYYYYY'' = ''api_key=XXXXXXXXXapi_key=***''
   \<and> redact_secrets (redact_secrets ''api_key=XXXXXXXXXapikey=YYYYYYYYYYYYYYYY'') = ''api_key=***=***''"
proof -
  have "redact_secrets ''api_key=XXXXXXXXXapikey=YYYYYYYYYYYYYYYY'' = ''api_key=XXXXXXXXXapi_key=***''"
    by code_simp
  moreover have "redact_secrets ''api_key=XXXXXXXXXapi_key=***'' = ''api_key=***=***''"
    by code_simp
  ultimately show ?thesis by simp
qed

end
